theory Spec2Isabelle
  imports Main "HOL-Library.Word"
begin

section \<open>The statistics record\<close>

text \<open>
  The Go struct \<^verbatim>\<open>Stat\<close> of \<^verbatim>\<open>progress.go\<close> has five \<^verbatim>\<open>uint64\<close> counters.
  They are 64-bit words here, so that \<open>+\<close> wraps around as Go's unsigned addition does.
\<close>

type_synonym uint64 = "64 word"

record Stat =
  Files :: uint64
  Dirs :: uint64
  Bytes :: uint64
  Trees :: uint64
  Blobs :: uint64

text \<open>The composite literal \<^verbatim>\<open>Stat{}\<close>: every field zero.\<close>

definition Stat_zero :: Stat where
  "Stat_zero = \<lparr>Files = 0, Dirs = 0, Bytes = 0, Trees = 0, Blobs = 0\<rparr>"

text \<open>
  \<^verbatim>\<open>func (s *Stat) Add(other Stat)\<close> updates the receiver in place, in the order
  Bytes, Dirs, Files; the model returns the updated receiver.
\<close>

definition Add :: "Stat \<Rightarrow> Stat \<Rightarrow> Stat" where
  "Add s other =
     (let s1 = s\<lparr>Bytes := Bytes s + Bytes other\<rparr>;
          s2 = s1\<lparr>Dirs := Dirs s1 + Dirs other\<rparr>;
          s3 = s2\<lparr>Files := Files s2 + Files other\<rparr>
      in s3)"

section \<open>Formatting\<close>

text \<open>
  \<^verbatim>\<open>Stat.String\<close> calls \<^verbatim>\<open>fmt.Sprintf\<close> with the verbs \<^verbatim>\<open>%d\<close> (on a \<^verbatim>\<open>uint64\<close>),
  \<^verbatim>\<open>%.3f\<close> (on a \<^verbatim>\<open>float64\<close>) and \<^verbatim>\<open>%v\<close> (on a string, which prints the string).
  The standard library is not part of the repository; the three functions below give
  the results of those verbs on the values that occur here.

  \<open>fmt_d\<close> is \<^verbatim>\<open>%d\<close>: the decimal digits of an unsigned integer, no padding.
\<close>

definition digit_char :: "nat \<Rightarrow> char" where
  "digit_char n = ''0123456789'' ! n"

fun fmt_d :: "nat \<Rightarrow> string" where
  "fmt_d n = (if n < 10 then [digit_char n] else fmt_d (n div 10) @ [digit_char (n mod 10)])"

declare fmt_d.simps [simp del]

text \<open>
  \<open>round_half_even n e\<close> is \<open>n / 2 ^ e\<close> rounded to the nearest integer, a tie going to
  the even neighbour: the rounding of IEEE 754 arithmetic and of Go's decimal
  conversion of floats.
\<close>

definition round_half_even :: "nat \<Rightarrow> nat \<Rightarrow> nat" where
  "round_half_even n e =
     (if 2 ^ e < 2 * (n mod 2 ^ e) \<or> (2 * (n mod 2 ^ e) = 2 ^ e \<and> odd (n div 2 ^ e))
      then n div 2 ^ e + 1 else n div 2 ^ e)"

fun bitlen :: "nat \<Rightarrow> nat" where
  "bitlen n = (if n = 0 then 0 else Suc (bitlen (n div 2)))"

declare bitlen.simps [simp del]

text \<open>
  The conversion \<^verbatim>\<open>float64(s.Bytes)\<close>. A \<^verbatim>\<open>float64\<close> has a 53-bit significand, so
  a \<^verbatim>\<open>uint64\<close> of more than 53 bits is rounded (half to even) to 53 significant bits.
  The result is always a whole number; \<open>float64\<close> returns it as a \<open>nat\<close>.
\<close>

definition float64 :: "uint64 \<Rightarrow> nat" where
  "float64 w = round_half_even (unat w) (bitlen (unat w) - 53) * 2 ^ (bitlen (unat w) - 53)"

text \<open>
  \<open>fmt_f3 b k\<close> is \<^verbatim>\<open>fmt.Sprintf("%.3f", b/(1<<k))\<close> for a float \<open>b\<close> that is a whole
  number. Dividing a float by a power of two is exact in this range, and \<^verbatim>\<open>%.3f\<close>
  prints the exact quotient rounded (half to even) to three decimals.
\<close>

definition frac3 :: "nat \<Rightarrow> string" where
  "frac3 f = [digit_char (f div 100), digit_char (f div 10 mod 10), digit_char (f mod 10)]"

definition fmt_f3 :: "nat \<Rightarrow> nat \<Rightarrow> string" where
  "fmt_f3 b k =
     fmt_d (round_half_even (b * 1000) k div 1000) @ ''.'' @
     frac3 (round_half_even (b * 1000) k mod 1000)"

text \<open>
  \<^verbatim>\<open>func (s Stat) String() string\<close>: the \<^verbatim>\<open>switch\<close> takes the first case that holds,
  each a strict comparison of the \<^verbatim>\<open>uint64\<close> with \<^verbatim>\<open>1<<40\<close>, \<^verbatim>\<open>1<<30\<close>, \<^verbatim>\<open>1<<20\<close>,
  \<^verbatim>\<open>1<<10\<close>; the result wraps the scaled string in \<^verbatim>\<open>Stat(%d files, %d dirs, %v)\<close>.
\<close>

definition String :: "Stat \<Rightarrow> string" where
  "String s =
     ''Stat('' @ fmt_d (unat (Files s)) @ '' files, '' @ fmt_d (unat (Dirs s)) @ '' dirs, '' @
       (if Bytes s > 2 ^ 40 then fmt_f3 (float64 (Bytes s)) 40 @ '' TiB''
        else if Bytes s > 2 ^ 30 then fmt_f3 (float64 (Bytes s)) 30 @ '' GiB''
        else if Bytes s > 2 ^ 20 then fmt_f3 (float64 (Bytes s)) 20 @ '' MiB''
        else if Bytes s > 2 ^ 10 then fmt_f3 (float64 (Bytes s)) 10 @ '' KiB''
        else fmt_d (unat (Bytes s)) @ ''B'') @ '')''"

section \<open>The progress reporter, one call at a time\<close>

text \<open>
  A failed call is a value. \<open>Panic msg\<close> is Go's \<^verbatim>\<open>panic(msg)\<close> with the message of the
  source; the other constructors are the run-time panics of the operations the code
  uses: a field access through a nil pointer, \<^verbatim>\<open>close\<close> of a closed or nil channel, and
  \<^verbatim>\<open>time.NewTicker\<close> with an interval that is not positive.
\<close>

datatype panic =
    Panic string
  | NilDereference
  | CloseOfClosedChannel
  | CloseOfNilChannel
  | NonPositiveInterval

type_synonym 'a result = "panic + 'a"

text \<open>
  The channel \<^verbatim>\<open>cancel chan struct{}\<close> is never sent on: all that matters is whether
  it is nil, open or closed. The ticker \<^verbatim>\<open>c *time.Ticker\<close> is nil, running or stopped.
\<close>

datatype chan = ChanNil | ChanOpen | ChanClosed

datatype ticker = TickerNil | TickerRunning | TickerStopped

text \<open>
  What a call does to the world outside the struct is a list of events: a call of one
  of the two callbacks with its \<^verbatim>\<open>Stat\<close> and its \<^verbatim>\<open>ticker\<close> flag, the close of the
  cancel channel, the launch of the background goroutine. The second argument of a
  callback, \<^verbatim>\<open>time.Since(p.start)\<close>, is a reading of the clock; the model has no clock,
  and leaves the field \<^verbatim>\<open>start\<close> and that argument out.
\<close>

datatype event =
    CallOnUpdate Stat bool
  | CallOnDone Stat bool
  | CloseCancel
  | GoReporter

text \<open>
  The struct \<^verbatim>\<open>Progress\<close>. The callback slots \<open>OnUpdate\<close> and \<open>OnDone\<close> hold whether the
  function value is non-nil. \<open>o_once\<close> is the \<^verbatim>\<open>sync.Once\<close> field \<^verbatim>\<open>o\<close>: whether it has
  fired. \<open>c_ticker\<close> and \<open>d_interval\<close> are the fields \<^verbatim>\<open>c\<close> and \<^verbatim>\<open>d\<close>. The two mutexes
  are free whenever no call is in progress, and each method releases what it locks,
  so they do not appear in this part, where calls do not overlap; the part on
  concurrent calls has them.
\<close>

record Progress =
  OnUpdate :: bool
  OnDone :: bool
  cur :: Stat
  c_ticker :: ticker
  cancel :: chan
  o_once :: bool
  d_interval :: int
  running :: bool

text \<open>
  A \<^verbatim>\<open>*Progress\<close> is \<open>None\<close> for the nil pointer and \<open>Some p\<close> for a pointer to the
  struct \<open>p\<close>. A method returns the struct as it leaves it, with the events of the call.
\<close>

definition NewProgress :: "int \<Rightarrow> Progress option" where
  "NewProgress d =
     Some \<lparr>OnUpdate = False, OnDone = False, cur = Stat_zero, c_ticker = TickerNil,
           cancel = ChanNil, o_once = False, d_interval = d, running = False\<rparr>"

definition Reset :: "Progress option \<Rightarrow> (Progress option \<times> event list) result" where
  "Reset pp =
     (case pp of
        None \<Rightarrow> Inr (None, [])
      | Some p \<Rightarrow>
          if \<not> running p then Inl (Panic ''resetting a non-running Progress'')
          else Inr (Some (p\<lparr>cur := Stat_zero\<rparr>), []))"

text \<open>
  \<^verbatim>\<open>Start\<close>: the new \<^verbatim>\<open>sync.Once\<close>, the new channel and the flag are set before \<^verbatim>\<open>Reset\<close>
  runs; \<^verbatim>\<open>time.NewTicker\<close> panics unless the interval is positive; \<^verbatim>\<open>go p.reporter()\<close>
  comes last.
\<close>

definition Start :: "Progress option \<Rightarrow> (Progress option \<times> event list) result" where
  "Start pp =
     (case pp of
        None \<Rightarrow> Inr (None, [])
      | Some p \<Rightarrow>
          if running p then Inl (Panic ''truing to reset a running Progress'')
          else
            (case Reset (Some (p\<lparr>o_once := False, cancel := ChanOpen, running := True\<rparr>)) of
               Inl e \<Rightarrow> Inl e
             | Inr (None, evs) \<Rightarrow> Inr (None, evs)
             | Inr (Some p1, evs) \<Rightarrow>
                 if d_interval p1 \<le> 0 then Inl NonPositiveInterval
                 else Inr (Some (p1\<lparr>c_ticker := TickerRunning\<rparr>), evs @ [GoReporter])))"

definition Report :: "Progress option \<Rightarrow> Stat \<Rightarrow> (Progress option \<times> event list) result" where
  "Report pp s =
     (case pp of
        None \<Rightarrow> Inr (None, [])
      | Some p \<Rightarrow>
          if \<not> running p then Inl (Panic ''reporting in a non-running Progress'')
          else
            (let p1 = p\<lparr>cur := Add (cur p) s\<rparr>;
                 cur1 = cur p1
             in Inr (Some p1, if OnUpdate p1 then [CallOnUpdate cur1 False] else [])))"

definition ReportFile :: "Progress option \<Rightarrow> uint64 \<Rightarrow> (Progress option \<times> event list) result" where
  "ReportFile pp sz = Report pp (Stat_zero\<lparr>Files := 1, Bytes := sz\<rparr>)"

definition ReportDir :: "Progress option \<Rightarrow> (Progress option \<times> event list) result" where
  "ReportDir pp = Report pp (Stat_zero\<lparr>Dirs := 1\<rparr>)"

text \<open>
  \<^verbatim>\<open>p.o.Do(func() { close(p.cancel) })\<close>: the function runs only if the \<^verbatim>\<open>Once\<close> has not
  fired, and \<^verbatim>\<open>close\<close> panics on a channel that is nil or already closed.
\<close>

definition once_close :: "Progress \<Rightarrow> (Progress \<times> event list) result" where
  "once_close p =
     (if o_once p then Inr (p, [])
      else
        (case cancel p of
           ChanNil \<Rightarrow> Inl CloseOfNilChannel
         | ChanClosed \<Rightarrow> Inl CloseOfClosedChannel
         | ChanOpen \<Rightarrow> Inr (p\<lparr>o_once := True, cancel := ChanClosed\<rparr>, [CloseCancel])))"

definition Done :: "Progress option \<Rightarrow> (Progress option \<times> event list) result" where
  "Done pp =
     (case pp of
        None \<Rightarrow> Inr (None, [])
      | Some p \<Rightarrow>
          if \<not> running p then Inl (Panic ''Done() called on non-running Progress'')
          else if running p then
            (case once_close (p\<lparr>running := False\<rparr>) of
               Inl e \<Rightarrow> Inl e
             | Inr (p1, evs) \<Rightarrow>
                 Inr (Some p1, evs @ (if OnDone p1 then [CallOnDone (cur p1) False] else [])))
          else Inr (Some p, []))"

text \<open>
  \<^verbatim>\<open>Current\<close> has no nil check: \<^verbatim>\<open>p.curM.Lock()\<close> and \<^verbatim>\<open>p.cur\<close> go through the pointer.
\<close>

definition Current :: "Progress option \<Rightarrow> Stat result" where
  "Current pp = (case pp of None \<Rightarrow> Inl NilDereference | Some p \<Rightarrow> Inr (cur p))"

text \<open>
  A caller that makes the calls \<^verbatim>\<open>p.Report(d1); ...; p.Report(dn)\<close> one after the other;
  a panic ends the sequence.
\<close>

fun Report_seq :: "Progress option \<Rightarrow> Stat list \<Rightarrow> (Progress option \<times> event list) result" where
  "Report_seq pp [] = Inr (pp, [])"
| "Report_seq pp (s # ss) =
     (case Report pp s of
        Inl e \<Rightarrow> Inl e
      | Inr (pp1, evs) \<Rightarrow>
          (case Report_seq pp1 ss of
             Inl e \<Rightarrow> Inl e
           | Inr (pp2, evs2) \<Rightarrow> Inr (pp2, evs @ evs2)))"

text \<open>
  A caller that makes one call after another on the same pointer: the second call runs
  on what the first left, and a panic of the first ends the sequence.
\<close>

definition and_then ::
  "(Progress option \<times> event list) result \<Rightarrow>
   (Progress option \<Rightarrow> (Progress option \<times> event list) result) \<Rightarrow>
   (Progress option \<times> event list) result" where
  "and_then r f =
     (case r of
        Inl e \<Rightarrow> Inl e
      | Inr (pp, evs) \<Rightarrow>
          (case f pp of Inl e \<Rightarrow> Inl e | Inr (pp1, evs1) \<Rightarrow> Inr (pp1, evs @ evs1)))"

section \<open>Concurrent calls\<close>

text \<open>
  Several goroutines work on one \<^verbatim>\<open>Progress\<close>: callers of \<^verbatim>\<open>Report\<close>, \<^verbatim>\<open>ReportFile\<close>,
  \<^verbatim>\<open>ReportDir\<close> and \<^verbatim>\<open>Done\<close>, and the background goroutine \<^verbatim>\<open>reporter\<close> that \<^verbatim>\<open>Start\<close>
  launched. Each goroutine is at a point of its method; a step of the system is one
  goroutine doing the statement at its point, and a run is any interleaving of such
  steps. A read-modify-write statement (\<^verbatim>\<open>s.Bytes += other.Bytes\<close>) is two steps, the
  load and the store, so that an update is lost unless something keeps the others out.

  A caller has a list of calls still to make.
\<close>

datatype call = CallReport Stat | CallReportFile uint64 | CallReportDir | CallDone

text \<open>
  The points of \<^verbatim>\<open>Report(s)\<close>, with the argument \<open>s\<close> and later the local \<^verbatim>\<open>cur\<close>; the
  points of \<^verbatim>\<open>Done()\<close>; the points of \<^verbatim>\<open>reporter()\<close>. \<open>Idle\<close> is a caller between two
  calls, \<open>Returned\<close> the background goroutine after its \<^verbatim>\<open>return\<close>.
\<close>

datatype pc =
    Idle
  | R_check Stat
  | R_lock Stat
  | R_load_Bytes Stat
  | R_store_Bytes Stat uint64
  | R_load_Dirs Stat
  | R_store_Dirs Stat uint64
  | R_load_Files Stat
  | R_store_Files Stat uint64
  | R_copy
  | R_unlock Stat
  | R_test Stat
  | R_fn_lock Stat
  | R_call Stat
  | R_fn_unlock
  | D_check
  | D_recheck
  | D_clear
  | D_once
  | D_read
  | D_test Stat
  | D_fn_lock Stat
  | D_call Stat
  | D_fn_unlock
  | T_select
  | T_lock
  | T_copy
  | T_unlock Stat
  | T_test Stat
  | T_fn_lock Stat
  | T_call Stat
  | T_fn_unlock
  | T_stop
  | Returned

type_synonym thread = "pc \<times> call list"

text \<open>
  The system: the struct, the holders of the two mutexes \<^verbatim>\<open>curM\<close> and \<^verbatim>\<open>fnM\<close> (a
  goroutine's index, or \<open>None\<close> when the mutex is free), the events so far, the panic
  that has ended the program if one has, and the goroutines.
\<close>

record sys =
  prog :: Progress
  curM :: "nat option"
  fnM :: "nat option"
  log :: "event list"
  crashed :: "panic option"
  threads :: "thread list"

text \<open>
  One step of goroutine \<open>t\<close> at its point. \<open>None\<close>: it cannot move (a mutex held by
  another, a \<^verbatim>\<open>select\<close> with no case ready, nothing left to do). The flag \<open>b\<close> matters at
  the \<^verbatim>\<open>select\<close> of \<^verbatim>\<open>reporter\<close> only: \<open>True\<close> takes the case \<^verbatim>\<open><-p.c.C\<close>, which is ready when
  the running ticker has sent a tick, \<open>False\<close> the case \<^verbatim>\<open><-p.cancel\<close>, ready once the
  channel is closed; when both are ready Go takes either.
\<close>

fun thread_step :: "nat \<Rightarrow> bool \<Rightarrow> thread \<Rightarrow> sys \<Rightarrow> (thread \<times> sys) option" where
  "thread_step t b (Idle, []) s = None"
| "thread_step t b (Idle, CallReport d # cs) s = Some ((R_check d, cs), s)"
| "thread_step t b (Idle, CallReportFile n # cs) s =
     Some ((R_check (Stat_zero\<lparr>Files := 1, Bytes := n\<rparr>), cs), s)"
| "thread_step t b (Idle, CallReportDir # cs) s = Some ((R_check (Stat_zero\<lparr>Dirs := 1\<rparr>), cs), s)"
| "thread_step t b (Idle, CallDone # cs) s = Some ((D_check, cs), s)"
| "thread_step t b (R_check d, cs) s =
     (if \<not> running (prog s)
      then Some ((Idle, cs), s\<lparr>crashed := Some (Panic ''reporting in a non-running Progress'')\<rparr>)
      else Some ((R_lock d, cs), s))"
| "thread_step t b (R_lock d, cs) s =
     (if curM s = None then Some ((R_load_Bytes d, cs), s\<lparr>curM := Some t\<rparr>) else None)"
| "thread_step t b (R_load_Bytes d, cs) s =
     Some ((R_store_Bytes d (Bytes (cur (prog s))), cs), s)"
| "thread_step t b (R_store_Bytes d v, cs) s =
     Some ((R_load_Dirs d, cs), s\<lparr>prog := (prog s)\<lparr>cur := (cur (prog s))\<lparr>Bytes := v + Bytes d\<rparr>\<rparr>\<rparr>)"
| "thread_step t b (R_load_Dirs d, cs) s =
     Some ((R_store_Dirs d (Dirs (cur (prog s))), cs), s)"
| "thread_step t b (R_store_Dirs d v, cs) s =
     Some ((R_load_Files d, cs), s\<lparr>prog := (prog s)\<lparr>cur := (cur (prog s))\<lparr>Dirs := v + Dirs d\<rparr>\<rparr>\<rparr>)"
| "thread_step t b (R_load_Files d, cs) s =
     Some ((R_store_Files d (Files (cur (prog s))), cs), s)"
| "thread_step t b (R_store_Files d v, cs) s =
     Some ((R_copy, cs), s\<lparr>prog := (prog s)\<lparr>cur := (cur (prog s))\<lparr>Files := v + Files d\<rparr>\<rparr>\<rparr>)"
| "thread_step t b (R_copy, cs) s = Some ((R_unlock (cur (prog s)), cs), s)"
| "thread_step t b (R_unlock c, cs) s = Some ((R_test c, cs), s\<lparr>curM := None\<rparr>)"
| "thread_step t b (R_test c, cs) s =
     Some ((if OnUpdate (prog s) then R_fn_lock c else Idle, cs), s)"
| "thread_step t b (R_fn_lock c, cs) s =
     (if fnM s = None then Some ((R_call c, cs), s\<lparr>fnM := Some t\<rparr>) else None)"
| "thread_step t b (R_call c, cs) s =
     Some ((R_fn_unlock, cs), s\<lparr>log := log s @ [CallOnUpdate c False]\<rparr>)"
| "thread_step t b (R_fn_unlock, cs) s = Some ((Idle, cs), s\<lparr>fnM := None\<rparr>)"
| "thread_step t b (D_check, cs) s =
     (if \<not> running (prog s)
      then Some ((Idle, cs), s\<lparr>crashed := Some (Panic ''Done() called on non-running Progress'')\<rparr>)
      else Some ((D_recheck, cs), s))"
| "thread_step t b (D_recheck, cs) s =
     Some ((if running (prog s) then D_clear else Idle, cs), s)"
| "thread_step t b (D_clear, cs) s =
     Some ((D_once, cs), s\<lparr>prog := (prog s)\<lparr>running := False\<rparr>\<rparr>)"
| "thread_step t b (D_once, cs) s =
     (case once_close (prog s) of
        Inl e \<Rightarrow> Some ((Idle, cs), s\<lparr>crashed := Some e\<rparr>)
      | Inr (p1, evs) \<Rightarrow> Some ((D_read, cs), s\<lparr>prog := p1, log := log s @ evs\<rparr>))"
| "thread_step t b (D_read, cs) s = Some ((D_test (cur (prog s)), cs), s)"
| "thread_step t b (D_test c, cs) s =
     Some ((if OnDone (prog s) then D_fn_lock c else Idle, cs), s)"
| "thread_step t b (D_fn_lock c, cs) s =
     (if fnM s = None then Some ((D_call c, cs), s\<lparr>fnM := Some t\<rparr>) else None)"
| "thread_step t b (D_call c, cs) s =
     Some ((D_fn_unlock, cs), s\<lparr>log := log s @ [CallOnDone c False]\<rparr>)"
| "thread_step t b (D_fn_unlock, cs) s = Some ((Idle, cs), s\<lparr>fnM := None\<rparr>)"
| "thread_step t b (T_select, cs) s =
     (if b then (if c_ticker (prog s) = TickerRunning then Some ((T_lock, cs), s) else None)
      else (if cancel (prog s) = ChanClosed then Some ((T_stop, cs), s) else None))"
| "thread_step t b (T_lock, cs) s =
     (if curM s = None then Some ((T_copy, cs), s\<lparr>curM := Some t\<rparr>) else None)"
| "thread_step t b (T_copy, cs) s = Some ((T_unlock (cur (prog s)), cs), s)"
| "thread_step t b (T_unlock c, cs) s = Some ((T_test c, cs), s\<lparr>curM := None\<rparr>)"
| "thread_step t b (T_test c, cs) s =
     Some ((if OnUpdate (prog s) then T_fn_lock c else T_select, cs), s)"
| "thread_step t b (T_fn_lock c, cs) s =
     (if fnM s = None then Some ((T_call c, cs), s\<lparr>fnM := Some t\<rparr>) else None)"
| "thread_step t b (T_call c, cs) s =
     Some ((T_fn_unlock, cs), s\<lparr>log := log s @ [CallOnUpdate c True]\<rparr>)"
| "thread_step t b (T_fn_unlock, cs) s = Some ((T_select, cs), s\<lparr>fnM := None\<rparr>)"
| "thread_step t b (T_stop, cs) s =
     Some ((Returned, cs), s\<lparr>prog := (prog s)\<lparr>c_ticker := TickerStopped\<rparr>\<rparr>)"
| "thread_step t b (Returned, cs) s = None"

text \<open>
  A step of the system: goroutine \<open>t\<close> moves, unless a panic has ended the program.
\<close>

definition step :: "nat \<Rightarrow> bool \<Rightarrow> sys \<Rightarrow> sys option" where
  "step t b s =
     (if crashed s \<noteq> None \<or> length (threads s) \<le> t then None
      else
        (case thread_step t b (threads s ! t) s of
           None \<Rightarrow> None
         | Some (th, s1) \<Rightarrow> Some (s1\<lparr>threads := (threads s1)[t := th]\<rparr>)))"

text \<open>A schedule says which goroutine moves next; \<open>run\<close> follows it as far as it goes.\<close>

fun run :: "(nat \<times> bool) list \<Rightarrow> sys \<Rightarrow> sys option" where
  "run [] s = Some s"
| "run ((t, b) # sched) s = (case step t b s of None \<Rightarrow> None | Some s1 \<Rightarrow> run sched s1)"

text \<open>
  The system right after \<^verbatim>\<open>Start()\<close> has returned on the struct \<open>p\<close>: both mutexes free,
  nothing logged, the callers about to make their calls, and after them the
  background goroutine at the top of its loop.
\<close>

definition started :: "Progress \<Rightarrow> call list list \<Rightarrow> sys" where
  "started p css =
     \<lparr>prog = p, curM = None, fnM = None, log = [], crashed = None,
      threads = map (\<lambda>cs. (Idle, cs)) css @ [(T_select, [])]\<rparr>"

text \<open>
  Where a goroutine holds a mutex: between \<^verbatim>\<open>p.curM.Lock()\<close> and \<^verbatim>\<open>p.curM.Unlock()\<close>, and
  between \<^verbatim>\<open>p.fnM.Lock()\<close> and \<^verbatim>\<open>p.fnM.Unlock()\<close>.
\<close>

fun holds_curM :: "pc \<Rightarrow> bool" where
  "holds_curM (R_load_Bytes d) = True"
| "holds_curM (R_store_Bytes d v) = True"
| "holds_curM (R_load_Dirs d) = True"
| "holds_curM (R_store_Dirs d v) = True"
| "holds_curM (R_load_Files d) = True"
| "holds_curM (R_store_Files d v) = True"
| "holds_curM R_copy = True"
| "holds_curM (R_unlock c) = True"
| "holds_curM T_copy = True"
| "holds_curM (T_unlock c) = True"
| "holds_curM _ = False"

fun holds_fnM :: "pc \<Rightarrow> bool" where
  "holds_fnM (R_call c) = True"
| "holds_fnM R_fn_unlock = True"
| "holds_fnM (D_call c) = True"
| "holds_fnM D_fn_unlock = True"
| "holds_fnM (T_call c) = True"
| "holds_fnM T_fn_unlock = True"
| "holds_fnM _ = False"

text \<open>A value loaded for a \<^verbatim>\<open>+=\<close> and not yet stored back is still the value of the field.\<close>

fun loaded_ok :: "Stat \<Rightarrow> pc \<Rightarrow> bool" where
  "loaded_ok c (R_store_Bytes d v) = (v = Bytes c)"
| "loaded_ok c (R_store_Dirs d v) = (v = Dirs c)"
| "loaded_ok c (R_store_Files d v) = (v = Files c)"
| "loaded_ok c _ = True"

definition mutex_inv :: "sys \<Rightarrow> bool" where
  "mutex_inv s =
     (list_all (\<lambda>t. (holds_curM (fst (threads s ! t)) = (curM s = Some t))
                  \<and> (holds_fnM (fst (threads s ! t)) = (fnM s = Some t))
                  \<and> loaded_ok (cur (prog s)) (fst (threads s ! t)))
        [0 ..< length (threads s)])"

text \<open>
  What a goroutine has still to add to a field: the deltas of the calls it has not
  begun, and the delta of the call it is in until the store of that field.
\<close>

fun call_delta :: "call \<Rightarrow> Stat" where
  "call_delta (CallReport d) = d"
| "call_delta (CallReportFile n) = Stat_zero\<lparr>Files := 1, Bytes := n\<rparr>"
| "call_delta (CallReportDir) = Stat_zero\<lparr>Dirs := 1\<rparr>"
| "call_delta CallDone = Stat_zero"

fun owed_Bytes_pc :: "pc \<Rightarrow> uint64" where
  "owed_Bytes_pc (R_check d) = Bytes d"
| "owed_Bytes_pc (R_lock d) = Bytes d"
| "owed_Bytes_pc (R_load_Bytes d) = Bytes d"
| "owed_Bytes_pc (R_store_Bytes d v) = Bytes d"
| "owed_Bytes_pc _ = 0"

fun owed_Dirs_pc :: "pc \<Rightarrow> uint64" where
  "owed_Dirs_pc (R_check d) = Dirs d"
| "owed_Dirs_pc (R_lock d) = Dirs d"
| "owed_Dirs_pc (R_load_Bytes d) = Dirs d"
| "owed_Dirs_pc (R_store_Bytes d v) = Dirs d"
| "owed_Dirs_pc (R_load_Dirs d) = Dirs d"
| "owed_Dirs_pc (R_store_Dirs d v) = Dirs d"
| "owed_Dirs_pc _ = 0"

fun owed_Files_pc :: "pc \<Rightarrow> uint64" where
  "owed_Files_pc (R_check d) = Files d"
| "owed_Files_pc (R_lock d) = Files d"
| "owed_Files_pc (R_load_Bytes d) = Files d"
| "owed_Files_pc (R_store_Bytes d v) = Files d"
| "owed_Files_pc (R_load_Dirs d) = Files d"
| "owed_Files_pc (R_store_Dirs d v) = Files d"
| "owed_Files_pc (R_load_Files d) = Files d"
| "owed_Files_pc (R_store_Files d v) = Files d"
| "owed_Files_pc _ = 0"

definition owed :: "thread \<Rightarrow> Stat" where
  "owed th =
     \<lparr>Files = owed_Files_pc (fst th) + sum_list (map (\<lambda>c. Files (call_delta c)) (snd th)),
      Dirs = owed_Dirs_pc (fst th) + sum_list (map (\<lambda>c. Dirs (call_delta c)) (snd th)),
      Bytes = owed_Bytes_pc (fst th) + sum_list (map (\<lambda>c. Bytes (call_delta c)) (snd th)),
      Trees = 0, Blobs = 0\<rparr>"

text \<open>The total with everything that is still owed added to it.\<close>

definition total_owed :: "sys \<Rightarrow> Stat" where
  "total_owed s =
     \<lparr>Files = Files (cur (prog s)) + sum_list (map (\<lambda>th. Files (owed th)) (threads s)),
      Dirs = Dirs (cur (prog s)) + sum_list (map (\<lambda>th. Dirs (owed th)) (threads s)),
      Bytes = Bytes (cur (prog s)) + sum_list (map (\<lambda>th. Bytes (owed th)) (threads s)),
      Trees = Trees (cur (prog s)), Blobs = Blobs (cur (prog s))\<rparr>"

text \<open>A goroutine that is not in \<^verbatim>\<open>Done\<close> and will not call it.\<close>

fun in_Done :: "pc \<Rightarrow> bool" where
  "in_Done D_check = True"
| "in_Done D_recheck = True"
| "in_Done D_clear = True"
| "in_Done D_once = True"
| "in_Done D_read = True"
| "in_Done (D_test c) = True"
| "in_Done (D_fn_lock c) = True"
| "in_Done (D_call c) = True"
| "in_Done D_fn_unlock = True"
| "in_Done _ = False"

definition no_Done :: "thread \<Rightarrow> bool" where
  "no_Done th = (\<not> in_Done (fst th) \<and> CallDone \<notin> set (snd th))"

text \<open>A goroutine in \<^verbatim>\<open>reporter\<close>, with no calls to make.\<close>

fun in_reporter :: "pc \<Rightarrow> bool" where
  "in_reporter T_select = True"
| "in_reporter T_lock = True"
| "in_reporter T_copy = True"
| "in_reporter (T_unlock c) = True"
| "in_reporter (T_test c) = True"
| "in_reporter (T_fn_lock c) = True"
| "in_reporter (T_call c) = True"
| "in_reporter T_fn_unlock = True"
| "in_reporter T_stop = True"
| "in_reporter Returned = True"
| "in_reporter _ = False"

definition owed_free :: "thread \<Rightarrow> bool" where
  "owed_free th = (in_reporter (fst th) \<and> snd th = [])"

text \<open>
  No goroutine is in \<^verbatim>\<open>Done\<close> or will call it, the instance is running, and no panic has
  ended the program.
\<close>

definition quiet :: "sys \<Rightarrow> bool" where
  "quiet s = (list_all no_Done (threads s) \<and> running (prog s) \<and> crashed s = None)"

text \<open>
  The one-shot guard and the channel go together: the \<^verbatim>\<open>Once\<close> has fired exactly when the
  channel is closed, the log has one \<open>CloseCancel\<close> then and none before, and no \<^verbatim>\<open>close\<close>
  has panicked.
\<close>

definition once_inv :: "sys \<Rightarrow> bool" where
  "once_inv s =
     (cancel (prog s) = (if o_once (prog s) then ChanClosed else ChanOpen)
      \<and> count_list (log s) CloseCancel = (if o_once (prog s) then 1 else 0)
      \<and> crashed s \<noteq> Some CloseOfClosedChannel
      \<and> crashed s \<noteq> Some CloseOfNilChannel)"

fun is_OnDone :: "event \<Rightarrow> bool" where
  "is_OnDone (CallOnDone c b) = True"
| "is_OnDone _ = False"

text \<open>
  How far a call of \<^verbatim>\<open>Done\<close> has come: before it has cleared \<^verbatim>\<open>running\<close>, at the
  \<^verbatim>\<open>Once\<close>, or between the \<^verbatim>\<open>Once\<close> and the call of \<^verbatim>\<open>OnDone\<close>.
\<close>

fun Done_before :: "pc \<Rightarrow> nat" where
  "Done_before D_check = 1"
| "Done_before D_recheck = 1"
| "Done_before D_clear = 1"
| "Done_before _ = 0"

fun Done_closing :: "pc \<Rightarrow> nat" where
  "Done_closing D_once = 1"
| "Done_closing _ = 0"

fun Done_after :: "pc \<Rightarrow> nat" where
  "Done_after D_read = 1"
| "Done_after (D_test c) = 1"
| "Done_after (D_fn_lock c) = 1"
| "Done_after (D_call c) = 1"
| "Done_after _ = 0"

text \<open>Inside the branch \<^verbatim>\<open>if p.OnDone != nil\<close> of \<^verbatim>\<open>Done\<close>, before the call.\<close>

fun Done_calling :: "pc \<Rightarrow> bool" where
  "Done_calling (D_fn_lock c) = True"
| "Done_calling (D_call c) = True"
| "Done_calling _ = False"

text \<open>
  The state of the system as the one goroutine that calls \<^verbatim>\<open>Done\<close>, once, sees it: its
  call is still to come, or under way, or over. The instance is running until the call
  clears the flag; the channel is closed once the call is past the \<^verbatim>\<open>Once\<close>; \<^verbatim>\<open>OnDone\<close>
  has been called once when the call is over and there is a callback, and not before.
\<close>

definition Done_inv :: "thread \<Rightarrow> sys \<Rightarrow> bool" where
  "Done_inv th s =
     (count_list (snd th) CallDone + Done_before (fst th) + Done_closing (fst th)
          + Done_after (fst th) \<le> 1
      \<and> count_list (log s) CloseCancel + count_list (snd th) CallDone + Done_before (fst th)
          + Done_closing (fst th) = 1
      \<and> running (prog s) = (count_list (snd th) CallDone + Done_before (fst th) = 1)
      \<and> (\<not> Done_calling (fst th) \<or> OnDone (prog s))
      \<and> length (filter is_OnDone (log s)) =
          (if OnDone (prog s)
              \<and> count_list (snd th) CallDone + Done_before (fst th) + Done_closing (fst th)
                  + Done_after (fst th) = 0
           then 1 else 0))"



text \<open>
  When \<^verbatim>\<open>Done\<close> races only the background goroutine: every \<^verbatim>\<open>Stat\<close> handed to \<^verbatim>\<open>OnDone\<close>,
  and the local \<^verbatim>\<open>cur\<close> of \<^verbatim>\<open>Done\<close> on its way there, is the total; and the caller is
  between the test of \<^verbatim>\<open>running\<close> in \<^verbatim>\<open>Report\<close> and its last store only while the instance
  is running.
\<close>

fun snap_ok :: "Stat \<Rightarrow> event \<Rightarrow> bool" where
  "snap_ok c (CallOnDone c1 f) = (c1 = c)"
| "snap_ok c _ = True"

fun carried_ok :: "Stat \<Rightarrow> pc \<Rightarrow> bool" where
  "carried_ok c (D_test c1) = (c1 = c)"
| "carried_ok c (D_fn_lock c1) = (c1 = c)"
| "carried_ok c (D_call c1) = (c1 = c)"
| "carried_ok c _ = True"

fun writing :: "pc \<Rightarrow> bool" where
  "writing (R_lock d) = True"
| "writing (R_load_Bytes d) = True"
| "writing (R_store_Bytes d v) = True"
| "writing (R_load_Dirs d) = True"
| "writing (R_store_Dirs d v) = True"
| "writing (R_load_Files d) = True"
| "writing (R_store_Files d v) = True"
| "writing _ = False"

definition snap_inv :: "thread \<Rightarrow> sys \<Rightarrow> bool" where
  "snap_inv th s =
     (list_all (snap_ok (cur (prog s))) (log s)
      \<and> carried_ok (cur (prog s)) (fst th)
      \<and> (\<not> writing (fst th) \<or> running (prog s)))"


section \<open>Properties of Add\<close>

lemma Add_fields:
  "Files (Add s t) = Files s + Files t"
  "Dirs (Add s t) = Dirs s + Dirs t"
  "Bytes (Add s t) = Bytes s + Bytes t"
  "Trees (Add s t) = Trees s"
  "Blobs (Add s t) = Blobs s"
  by (simp_all add: Add_def Let_def)

text \<open>
  Claim C4. Adding \<open>b\<close> then \<open>c\<close> into \<open>a\<close> gives the same record as adding \<open>c\<close> then
  \<open>b\<close>, and the same as adding the combination of \<open>b\<close> and \<open>c\<close>; on the fields Files,
  Dirs and Bytes the addition is commutative; the fields Trees and Blobs of the
  receiver are left as they were, whatever the argument holds.
\<close>

theorem Add_comm_assoc:
  "Add (Add a b) c = Add (Add a c) b
   \<and> Add (Add a b) c = Add a (Add b c)
   \<and> Files (Add a b) = Files (Add b a)
   \<and> Dirs (Add a b) = Dirs (Add b a)
   \<and> Bytes (Add a b) = Bytes (Add b a)
   \<and> Files (Add a b) = Files a + Files b
   \<and> Dirs (Add a b) = Dirs a + Dirs b
   \<and> Bytes (Add a b) = Bytes a + Bytes b
   \<and> Trees (Add a b) = Trees a
   \<and> Blobs (Add a b) = Blobs a"
  by (simp add: Add_def Let_def add.commute add.left_commute add.assoc)

section \<open>Calls one after the other\<close>

lemma Report_running:
  "running p \<Longrightarrow>
     Report (Some p) s =
       Inr (Some (p\<lparr>cur := Add (cur p) s\<rparr>),
            if OnUpdate p then [CallOnUpdate (Add (cur p) s) False] else [])"
  by (simp add: Report_def Let_def)

lemma Report_seq_running:
  "running p \<Longrightarrow>
     \<exists>p' evs. Report_seq (Some p) ds = Inr (Some p', evs) \<and> running p'
       \<and> Files (cur p') = Files (cur p) + sum_list (map Files ds)
       \<and> Dirs (cur p') = Dirs (cur p) + sum_list (map Dirs ds)
       \<and> Bytes (cur p') = Bytes (cur p) + sum_list (map Bytes ds)
       \<and> Trees (cur p') = Trees (cur p)
       \<and> Blobs (cur p') = Blobs (cur p)"
proof (induction ds arbitrary: p)
  case Nil
  then show ?case by simp
next
  case (Cons s ds)
  let ?q = "p\<lparr>cur := Add (cur p) s\<rparr>"
  have q: "running ?q" using Cons.prems by simp
  from Cons.IH [OF q] obtain p' evs where
    seq: "Report_seq (Some ?q) ds = Inr (Some p', evs)" and run: "running p'"
    and f: "Files (cur p') = Files (cur ?q) + sum_list (map Files ds)"
    and d: "Dirs (cur p') = Dirs (cur ?q) + sum_list (map Dirs ds)"
    and b: "Bytes (cur p') = Bytes (cur ?q) + sum_list (map Bytes ds)"
    and t: "Trees (cur p') = Trees (cur ?q)"
    and l: "Blobs (cur p') = Blobs (cur ?q)"
    by blast
  have "Report_seq (Some p) (s # ds) =
          Inr (Some p', (if OnUpdate p then [CallOnUpdate (Add (cur p) s) False] else []) @ evs)"
    using Cons.prems seq by (simp add: Report_running)
  with run f d b t l show ?case
    by (simp add: Add_fields add.assoc)
qed

text \<open>
  Claim C1. On a running instance every call of a sequence of \<^verbatim>\<open>Report\<close> calls returns,
  and \<^verbatim>\<open>Current()\<close> afterwards has Files, Dirs and Bytes equal to their values before
  plus the sums of the deltas (sums of \<^verbatim>\<open>uint64\<close>, which wrap around), and Trees and
  Blobs as they were. When the total was zero before, as \<^verbatim>\<open>Start\<close> and \<^verbatim>\<open>Reset\<close> leave
  it, \<^verbatim>\<open>Current()\<close> is the pointwise sum of the deltas with Trees and Blobs zero.
\<close>

theorem Report_seq_Current:
  assumes "running p"
  shows "\<exists>p' evs st. Report_seq (Some p) ds = Inr (Some p', evs) \<and> Current (Some p') = Inr st
       \<and> Files st = Files (cur p) + sum_list (map Files ds)
       \<and> Dirs st = Dirs (cur p) + sum_list (map Dirs ds)
       \<and> Bytes st = Bytes (cur p) + sum_list (map Bytes ds)
       \<and> Trees st = Trees (cur p)
       \<and> Blobs st = Blobs (cur p)
       \<and> (cur p = Stat_zero \<longrightarrow>
            st = \<lparr>Files = sum_list (map Files ds), Dirs = sum_list (map Dirs ds),
                  Bytes = sum_list (map Bytes ds), Trees = 0, Blobs = 0\<rparr>)"
proof -
  from Report_seq_running [OF assms, of ds] obtain p' evs where
    seq: "Report_seq (Some p) ds = Inr (Some p', evs)"
    and f: "Files (cur p') = Files (cur p) + sum_list (map Files ds)"
    and d: "Dirs (cur p') = Dirs (cur p) + sum_list (map Dirs ds)"
    and b: "Bytes (cur p') = Bytes (cur p) + sum_list (map Bytes ds)"
    and t: "Trees (cur p') = Trees (cur p)"
    and l: "Blobs (cur p') = Blobs (cur p)"
    by blast
  have c: "Current (Some p') = Inr (cur p')" by (simp add: Current_def)
  have z: "cur p = Stat_zero \<longrightarrow>
            cur p' = \<lparr>Files = sum_list (map Files ds), Dirs = sum_list (map Dirs ds),
                  Bytes = sum_list (map Bytes ds), Trees = 0, Blobs = 0\<rparr>"
    using f d b t l by (simp add: Stat_zero_def)
  from seq c f d b t l z show ?thesis by blast
qed

lemma Start_NewProgress:
  "Start (NewProgress 1) =
     Inr (Some \<lparr>OnUpdate = False, OnDone = False, cur = Stat_zero, c_ticker = TickerRunning,
           cancel = ChanOpen, o_once = False, d_interval = 1, running = True\<rparr>, [GoReporter])"
  by (simp add: Start_def NewProgress_def Reset_def)

text \<open>
  The theorem at the instance that \<^verbatim>\<open>NewProgress(1)\<close> and \<^verbatim>\<open>Start()\<close> give, with three
  deltas, one of which makes Bytes wrap around.
\<close>

theorem Report_seq_Current_witness:
  "and_then (Start (NewProgress 1))
     (\<lambda>pp. Report_seq pp [Stat_zero\<lparr>Files := 1, Bytes := 5\<rparr>, Stat_zero\<lparr>Dirs := 1, Trees := 9\<rparr>,
        Stat_zero\<lparr>Files := 1, Bytes := - 1, Blobs := 3\<rparr>]) =
     Inr (Some \<lparr>OnUpdate = False, OnDone = False,
           cur = \<lparr>Files = 2, Dirs = 1, Bytes = 4, Trees = 0, Blobs = 0\<rparr>, c_ticker = TickerRunning,
           cancel = ChanOpen, o_once = False, d_interval = 1, running = True\<rparr>, [GoReporter])"
  using Report_seq_Current [of "\<lparr>OnUpdate = False, OnDone = False, cur = Stat_zero, c_ticker = TickerRunning,
           cancel = ChanOpen, o_once = False, d_interval = 1, running = True\<rparr>"
           "[Stat_zero\<lparr>Files := 1, Bytes := 5\<rparr>, Stat_zero\<lparr>Dirs := 1, Trees := 9\<rparr>,
        Stat_zero\<lparr>Files := 1, Bytes := - 1, Blobs := 3\<rparr>]"]
  by (simp add: and_then_def Start_NewProgress Report_def Add_def Stat_zero_def Let_def)


text \<open>
  Claim C3. On the nil pointer \<^verbatim>\<open>Start\<close>, \<^verbatim>\<open>Report\<close>, \<^verbatim>\<open>ReportFile\<close>, \<^verbatim>\<open>ReportDir\<close>,
  \<^verbatim>\<open>Reset\<close> and \<^verbatim>\<open>Done\<close> return at once and do nothing. \<^verbatim>\<open>Current\<close> does not: it has
  no nil check, and panics with a nil pointer dereference instead of returning the
  zero \<^verbatim>\<open>Stat\<close>.
\<close>

theorem nil_receiver_calls:
  "Start None = Inr (None, [])
   \<and> Report None s = Inr (None, [])
   \<and> ReportFile None n = Inr (None, [])
   \<and> ReportDir None = Inr (None, [])
   \<and> Reset None = Inr (None, [])
   \<and> Done None = Inr (None, [])
   \<and> Current None = Inl NilDereference"
  by (simp add: Start_def Report_def ReportFile_def ReportDir_def Reset_def Done_def Current_def)

lemma Done_running:
  "running p \<Longrightarrow> Done (Some p) = Inr (Some p', evs) \<Longrightarrow>
     \<not> running p' \<and> cur p' = cur p \<and> d_interval p' = d_interval p"
  by (auto simp: Done_def once_close_def split: if_splits chan.splits sum.splits)

lemma Done_Inr_running: "Done (Some p) = Inr r \<Longrightarrow> running p"
  by (auto simp: Done_def split: if_splits)

text \<open>
  Claim C5, as amended. After \<^verbatim>\<open>Done()\<close> has returned, the instance is not running:
  \<^verbatim>\<open>Report\<close>, \<^verbatim>\<open>ReportFile\<close> and \<^verbatim>\<open>ReportDir\<close> panic. \<^verbatim>\<open>Start()\<close> does not panic
  (the interval being positive): it makes a new \<^verbatim>\<open>Once\<close> and a new channel, zeroes the
  total and runs the instance again.
\<close>

theorem after_Done:
  assumes "Done (Some p) = Inr (Some p', evs)"
  shows "\<not> running p'
     \<and> Report (Some p') s = Inl (Panic ''reporting in a non-running Progress'')
     \<and> ReportFile (Some p') n = Inl (Panic ''reporting in a non-running Progress'')
     \<and> ReportDir (Some p') = Inl (Panic ''reporting in a non-running Progress'')
     \<and> (0 < d_interval p \<longrightarrow>
          Start (Some p') =
            Inr (Some (p'\<lparr>o_once := False, cancel := ChanOpen, running := True, cur := Stat_zero,
                          c_ticker := TickerRunning\<rparr>), [GoReporter]))"
proof -
  have r: "running p" using assms by (rule Done_Inr_running)
  from Done_running [OF r assms] have n: "\<not> running p'" and d: "d_interval p' = d_interval p"
    by simp_all
  show ?thesis using n d
    by (simp add: Report_def ReportFile_def ReportDir_def Start_def Reset_def)
qed

text \<open>The theorem at a running instance with an \<^verbatim>\<open>OnDone\<close> callback.\<close>

theorem after_Done_witness:
  "Done (Some \<lparr>OnUpdate = False, OnDone = True, cur = Stat_zero, c_ticker = TickerRunning,
           cancel = ChanOpen, o_once = False, d_interval = 1, running = True\<rparr>) =
     Inr (Some \<lparr>OnUpdate = False, OnDone = True, cur = Stat_zero, c_ticker = TickerRunning,
           cancel = ChanClosed, o_once = True, d_interval = 1, running = False\<rparr>,
          [CloseCancel, CallOnDone Stat_zero False])
   \<and> Report (Some \<lparr>OnUpdate = False, OnDone = True, cur = Stat_zero, c_ticker = TickerRunning,
           cancel = ChanClosed, o_once = True, d_interval = 1, running = False\<rparr>) (Stat_zero\<lparr>Bytes := 1\<rparr>) =
       Inl (Panic ''reporting in a non-running Progress'')
   \<and> Start (Some \<lparr>OnUpdate = False, OnDone = True, cur = Stat_zero, c_ticker = TickerRunning,
           cancel = ChanClosed, o_once = True, d_interval = 1, running = False\<rparr>) =
       Inr (Some \<lparr>OnUpdate = False, OnDone = True, cur = Stat_zero, c_ticker = TickerRunning,
           cancel = ChanOpen, o_once = False, d_interval = 1, running = True\<rparr>, [GoReporter])"
proof -
  have h: "Done (Some \<lparr>OnUpdate = False, OnDone = True, cur = Stat_zero, c_ticker = TickerRunning,
           cancel = ChanOpen, o_once = False, d_interval = 1, running = True\<rparr>) =
     Inr (Some \<lparr>OnUpdate = False, OnDone = True, cur = Stat_zero, c_ticker = TickerRunning,
           cancel = ChanClosed, o_once = True, d_interval = 1, running = False\<rparr>,
          [CloseCancel, CallOnDone Stat_zero False])"
    by (simp add: Done_def once_close_def)
  show ?thesis using h after_Done [OF h, of "Stat_zero\<lparr>Bytes := 1\<rparr>" 0] by simp
qed

text \<open>
  Claim C5 as it was stated fails: \<^verbatim>\<open>p := NewProgress(1); p.Start(); p.Done(); p.Start()\<close>
  does not panic, and leaves the instance running.
\<close>

theorem restart_after_Done:
  "and_then (and_then (Start (NewProgress 1)) Done) Start =
     Inr (Some \<lparr>OnUpdate = False, OnDone = False, cur = Stat_zero, c_ticker = TickerRunning,
           cancel = ChanOpen, o_once = False, d_interval = 1, running = True\<rparr>,
          [GoReporter, CloseCancel, GoReporter])"
  apply (simp add: and_then_def Start_NewProgress Done_def once_close_def)
  apply (simp add: Start_def Reset_def)
  done

text \<open>
  Claim C6. On an instance that is not nil and not running, \<^verbatim>\<open>Report\<close>, \<^verbatim>\<open>Reset\<close> and
  \<^verbatim>\<open>Done\<close> panic, each with its message; what \<^verbatim>\<open>NewProgress\<close> returns, before any
  \<^verbatim>\<open>Start()\<close>, is such an instance.
\<close>

theorem not_running_panics:
  "(\<not> running p \<longrightarrow>
      Report (Some p) s = Inl (Panic ''reporting in a non-running Progress'')
    \<and> Reset (Some p) = Inl (Panic ''resetting a non-running Progress'')
    \<and> Done (Some p) = Inl (Panic ''Done() called on non-running Progress''))
   \<and> Report (NewProgress d) s = Inl (Panic ''reporting in a non-running Progress'')
   \<and> Reset (NewProgress d) = Inl (Panic ''resetting a non-running Progress'')
   \<and> Done (NewProgress d) = Inl (Panic ''Done() called on non-running Progress'')"
  by (simp add: Report_def Reset_def Done_def NewProgress_def)

text \<open>The theorem at a stopped instance.\<close>

theorem not_running_panics_witness:
  "\<not> running \<lparr>OnUpdate = True, OnDone = True, cur = Stat_zero\<lparr>Files := 3\<rparr>, c_ticker = TickerStopped,
           cancel = ChanClosed, o_once = True, d_interval = 1, running = False\<rparr>
   \<and> Report (Some \<lparr>OnUpdate = True, OnDone = True, cur = Stat_zero\<lparr>Files := 3\<rparr>, c_ticker = TickerStopped,
           cancel = ChanClosed, o_once = True, d_interval = 1, running = False\<rparr>) (Stat_zero\<lparr>Dirs := 1\<rparr>) =
       Inl (Panic ''reporting in a non-running Progress'')
   \<and> Reset (Some \<lparr>OnUpdate = True, OnDone = True, cur = Stat_zero\<lparr>Files := 3\<rparr>, c_ticker = TickerStopped,
           cancel = ChanClosed, o_once = True, d_interval = 1, running = False\<rparr>) =
       Inl (Panic ''resetting a non-running Progress'')
   \<and> Done (Some \<lparr>OnUpdate = True, OnDone = True, cur = Stat_zero\<lparr>Files := 3\<rparr>, c_ticker = TickerStopped,
           cancel = ChanClosed, o_once = True, d_interval = 1, running = False\<rparr>) =
       Inl (Panic ''Done() called on non-running Progress'')"
  using not_running_panics [of "\<lparr>OnUpdate = True, OnDone = True, cur = Stat_zero\<lparr>Files := 3\<rparr>, c_ticker = TickerStopped,
           cancel = ChanClosed, o_once = True, d_interval = 1, running = False\<rparr>" "Stat_zero\<lparr>Dirs := 1\<rparr>" 1]
  by simp

text \<open>
  Claim C7. \<^verbatim>\<open>Start()\<close> on a running instance panics. When \<^verbatim>\<open>Start()\<close> returns, the
  instance is running and its total is zero, so \<^verbatim>\<open>Current()\<close> is the zero \<^verbatim>\<open>Stat\<close>, a
  second \<^verbatim>\<open>Start()\<close> panics, and a \<^verbatim>\<open>Reset()\<close> returns and leaves the instance as it
  is, with its zero total.
\<close>

theorem Start_twice:
  "(running p \<longrightarrow> Start (Some p) = Inl (Panic ''truing to reset a running Progress''))
   \<and> (\<forall>p' evs. Start (Some p) = Inr (Some p', evs) \<longrightarrow>
         running p'
       \<and> cur p' = Stat_zero
       \<and> Current (Some p') = Inr Stat_zero
       \<and> Start (Some p') = Inl (Panic ''truing to reset a running Progress'')
       \<and> Reset (Some p') = Inr (Some p', []))"
  by (auto simp: Start_def Reset_def Current_def split: if_splits)


text \<open>The theorem at an instance that has a total of 7 bytes before it is started.\<close>

theorem Start_twice_witness:
  "Start (Some \<lparr>OnUpdate = False, OnDone = False, cur = Stat_zero\<lparr>Bytes := 7\<rparr>, c_ticker = TickerNil,
           cancel = ChanNil, o_once = False, d_interval = 1, running = False\<rparr>) =
     Inr (Some \<lparr>OnUpdate = False, OnDone = False, cur = Stat_zero, c_ticker = TickerRunning,
           cancel = ChanOpen, o_once = False, d_interval = 1, running = True\<rparr>, [GoReporter])
   \<and> running \<lparr>OnUpdate = False, OnDone = False, cur = Stat_zero, c_ticker = TickerRunning,
           cancel = ChanOpen, o_once = False, d_interval = 1, running = True\<rparr>
   \<and> Start (Some \<lparr>OnUpdate = False, OnDone = False, cur = Stat_zero, c_ticker = TickerRunning,
           cancel = ChanOpen, o_once = False, d_interval = 1, running = True\<rparr>) =
       Inl (Panic ''truing to reset a running Progress'')
   \<and> Current (Some \<lparr>OnUpdate = False, OnDone = False, cur = Stat_zero, c_ticker = TickerRunning,
           cancel = ChanOpen, o_once = False, d_interval = 1, running = True\<rparr>) = Inr Stat_zero"
proof -
  have h: "Start (Some \<lparr>OnUpdate = False, OnDone = False, cur = Stat_zero\<lparr>Bytes := 7\<rparr>, c_ticker = TickerNil,
           cancel = ChanNil, o_once = False, d_interval = 1, running = False\<rparr>) =
     Inr (Some \<lparr>OnUpdate = False, OnDone = False, cur = Stat_zero, c_ticker = TickerRunning,
           cancel = ChanOpen, o_once = False, d_interval = 1, running = True\<rparr>, [GoReporter])"
    by (simp add: Start_def Reset_def)
  from Start_twice [of "\<lparr>OnUpdate = False, OnDone = False, cur = Stat_zero\<lparr>Bytes := 7\<rparr>, c_ticker = TickerNil,
           cancel = ChanNil, o_once = False, d_interval = 1, running = False\<rparr>"] h
  show ?thesis by simp
qed

text \<open>
  Claim C10. On a pointer that is not nil \<^verbatim>\<open>Current()\<close> returns the total whatever the
  state of the instance: there is no check of \<^verbatim>\<open>running\<close>. Before any \<^verbatim>\<open>Start()\<close> that
  is the zero \<^verbatim>\<open>Stat\<close>; after \<^verbatim>\<open>Done()\<close> it is the total \<^verbatim>\<open>Done\<close> found, the one it
  hands to \<^verbatim>\<open>OnDone\<close>.
\<close>

theorem Current_any_state:
  "Current (Some p) = Inr (cur p)
   \<and> Current (NewProgress d) = Inr Stat_zero
   \<and> (\<forall>p' evs. Done (Some p) = Inr (Some p', evs) \<longrightarrow>
        Current (Some p') = Inr (cur p) \<and> (OnDone p \<longrightarrow> CallOnDone (cur p) False \<in> set evs))"
  by (auto simp: Current_def NewProgress_def Done_def once_close_def
      split: if_splits chan.splits)

text \<open>The theorem at a running instance with a total of 7 bytes.\<close>

theorem Current_any_state_witness:
  "Done (Some \<lparr>OnUpdate = False, OnDone = True, cur = Stat_zero\<lparr>Bytes := 7\<rparr>, c_ticker = TickerRunning,
           cancel = ChanOpen, o_once = False, d_interval = 1, running = True\<rparr>) =
     Inr (Some \<lparr>OnUpdate = False, OnDone = True, cur = Stat_zero\<lparr>Bytes := 7\<rparr>, c_ticker = TickerRunning,
           cancel = ChanClosed, o_once = True, d_interval = 1, running = False\<rparr>,
          [CloseCancel, CallOnDone (Stat_zero\<lparr>Bytes := 7\<rparr>) False])
   \<and> Current (Some \<lparr>OnUpdate = False, OnDone = True, cur = Stat_zero\<lparr>Bytes := 7\<rparr>, c_ticker = TickerRunning,
           cancel = ChanClosed, o_once = True, d_interval = 1, running = False\<rparr>) =
       Inr (Stat_zero\<lparr>Bytes := 7\<rparr>)"
proof -
  have h: "Done (Some \<lparr>OnUpdate = False, OnDone = True, cur = Stat_zero\<lparr>Bytes := 7\<rparr>, c_ticker = TickerRunning,
           cancel = ChanOpen, o_once = False, d_interval = 1, running = True\<rparr>) =
     Inr (Some \<lparr>OnUpdate = False, OnDone = True, cur = Stat_zero\<lparr>Bytes := 7\<rparr>, c_ticker = TickerRunning,
           cancel = ChanClosed, o_once = True, d_interval = 1, running = False\<rparr>,
          [CloseCancel, CallOnDone (Stat_zero\<lparr>Bytes := 7\<rparr>) False])"
    by (simp add: Done_def once_close_def)
  from Current_any_state [of "\<lparr>OnUpdate = False, OnDone = True, cur = Stat_zero\<lparr>Bytes := 7\<rparr>, c_ticker = TickerRunning,
           cancel = ChanOpen, o_once = False, d_interval = 1, running = True\<rparr>" 1] h
  show ?thesis by simp
qed

section \<open>Formatting, evaluated\<close>

lemmas String_eval =
  String_def Stat_zero_def float64_def fmt_f3_def frac3_def round_half_even_def
  fmt_d.simps bitlen.simps digit_char_def

text \<open>
  Claim C2 as it was stated fails. With Bytes exactly \<^verbatim>\<open>1<<30\<close> the case \<^verbatim>\<open>> 1<<30\<close>
  does not hold and the next one, \<^verbatim>\<open>> 1<<20\<close>, does: the unit is MiB, not KiB. And the
  method returns the scaled string inside \<^verbatim>\<open>Stat(0 files, 0 dirs, ...)\<close>, not alone.
\<close>

theorem String_at_1GiB:
  "String \<lparr>Files = 0, Dirs = 0, Bytes = 2 ^ 30, Trees = 0, Blobs = 0\<rparr> =
     ''Stat(0 files, 0 dirs, 1024.000 MiB)''
   \<and> String \<lparr>Files = 0, Dirs = 0, Bytes = 2 ^ 30, Trees = 0, Blobs = 0\<rparr> \<noteq>
     ''Stat(0 files, 0 dirs, 1048576.000 KiB)''
   \<and> String \<lparr>Files = 0, Dirs = 0, Bytes = 500, Trees = 0, Blobs = 0\<rparr> \<noteq> ''500B''"
  by (simp add: String_eval)

text \<open>
  Claim C2, as amended. \<^verbatim>\<open>String()\<close> returns \<^verbatim>\<open>Stat(F files, D dirs, X)\<close> where the
  scaled string \<open>X\<close> is \<^verbatim>\<open>500B\<close> for 500 bytes, \<^verbatim>\<open>2.000 KiB\<close> for 2048 and
  \<^verbatim>\<open>1.000 GiB\<close> for \<^verbatim>\<open>1<<30 + 1\<close>. Every boundary is a strict comparison, so a count
  that is exactly a boundary takes the unit below: \<^verbatim>\<open>1<<10\<close> is \<^verbatim>\<open>1024B\<close>, \<^verbatim>\<open>1<<20\<close> is
  \<^verbatim>\<open>1024.000 KiB\<close>, \<^verbatim>\<open>1<<30\<close> is \<^verbatim>\<open>1024.000 MiB\<close> and \<^verbatim>\<open>1<<40\<close> is \<^verbatim>\<open>1024.000 GiB\<close>.
\<close>

theorem String_examples:
  "String \<lparr>Files = 0, Dirs = 0, Bytes = 500, Trees = 0, Blobs = 0\<rparr> =
     ''Stat(0 files, 0 dirs, 500B)''
   \<and> String \<lparr>Files = 0, Dirs = 0, Bytes = 2048, Trees = 0, Blobs = 0\<rparr> =
     ''Stat(0 files, 0 dirs, 2.000 KiB)''
   \<and> String \<lparr>Files = 0, Dirs = 0, Bytes = 2 ^ 30 + 1, Trees = 0, Blobs = 0\<rparr> =
     ''Stat(0 files, 0 dirs, 1.000 GiB)''
   \<and> String \<lparr>Files = 0, Dirs = 0, Bytes = 2 ^ 10, Trees = 0, Blobs = 0\<rparr> =
     ''Stat(0 files, 0 dirs, 1024B)''
   \<and> String \<lparr>Files = 0, Dirs = 0, Bytes = 2 ^ 20, Trees = 0, Blobs = 0\<rparr> =
     ''Stat(0 files, 0 dirs, 1024.000 KiB)''
   \<and> String \<lparr>Files = 0, Dirs = 0, Bytes = 2 ^ 30, Trees = 0, Blobs = 0\<rparr> =
     ''Stat(0 files, 0 dirs, 1024.000 MiB)''
   \<and> String \<lparr>Files = 0, Dirs = 0, Bytes = 2 ^ 40, Trees = 0, Blobs = 0\<rparr> =
     ''Stat(0 files, 0 dirs, 1024.000 GiB)''"
  by (simp add: String_eval)


section \<open>Concurrent calls: what every run keeps\<close>

text \<open>The step of a caller between two calls, and the step at the \<^verbatim>\<open>Once\<close>, written out.\<close>


lemma thread_step_Idle:
  "thread_step t b (Idle, cs) s =
     (case cs of [] \<Rightarrow> None
      | c # cs' \<Rightarrow> Some ((case c of CallDone \<Rightarrow> D_check | _ \<Rightarrow> R_check (call_delta c), cs'), s))"
  by (cases cs; simp split: call.splits)

lemma thread_step_D_once:
  "thread_step t b (D_once, cs) s =
     (if o_once (prog s) then Some ((D_read, cs), s)
      else
        (case cancel (prog s) of
           ChanNil \<Rightarrow> Some ((Idle, cs), s\<lparr>crashed := Some CloseOfNilChannel\<rparr>)
         | ChanClosed \<Rightarrow> Some ((Idle, cs), s\<lparr>crashed := Some CloseOfClosedChannel\<rparr>)
         | ChanOpen \<Rightarrow>
             Some ((D_read, cs),
               s\<lparr>prog := (prog s)\<lparr>o_once := True, cancel := ChanClosed\<rparr>,
                  log := log s @ [CloseCancel]\<rparr>)))"
  by (simp add: once_close_def split: chan.splits)

lemmas thread_step_eval = thread_step_Idle thread_step_D_once

declare thread_step.simps(23) [simp del]

text \<open>
  Mutual exclusion. A goroutine is between \<^verbatim>\<open>Lock\<close> and \<^verbatim>\<open>Unlock\<close> of a mutex exactly
  when it is the holder, and the total changes only under \<^verbatim>\<open>curM\<close>; so a value that a
  goroutine has loaded is still the value of the field when it stores.
\<close>

lemma mutex_inv_iff:
  "mutex_inv s \<longleftrightarrow>
     (\<forall>t < length (threads s).
        (holds_curM (fst (threads s ! t)) = (curM s = Some t))
      \<and> (holds_fnM (fst (threads s ! t)) = (fnM s = Some t))
      \<and> loaded_ok (cur (prog s)) (fst (threads s ! t)))"
  by (auto simp: mutex_inv_def list_all_iff)

lemma loaded_ok_free: "\<not> holds_curM pc \<Longrightarrow> loaded_ok c pc"
  by (cases pc) simp_all

lemma thread_step_threads:
  "thread_step t b (pc, cs) s = Some (th, s1) \<Longrightarrow> threads s1 = threads s"
  by (cases pc)
     (auto simp: thread_step_eval split: if_splits list.splits chan.splits)

lemma thread_step_curM:
  assumes "thread_step t b (pc, cs) s = Some ((pc1, cs1), s1)"
    and "holds_curM pc = (curM s = Some t)"
  shows "holds_curM pc1 = (curM s1 = Some t)
       \<and> (u \<noteq> t \<longrightarrow> (curM s1 = Some u) = (curM s = Some u))"
  using assms
  by (cases pc)
     (auto simp: thread_step_eval split: if_splits list.splits chan.splits call.splits)

lemma thread_step_fnM:
  assumes "thread_step t b (pc, cs) s = Some ((pc1, cs1), s1)"
    and "holds_fnM pc = (fnM s = Some t)"
  shows "holds_fnM pc1 = (fnM s1 = Some t)
       \<and> (u \<noteq> t \<longrightarrow> (fnM s1 = Some u) = (fnM s = Some u))"
  using assms
  by (cases pc)
     (auto simp: thread_step_eval split: if_splits list.splits chan.splits call.splits)

lemma thread_step_loaded:
  assumes "thread_step t b (pc, cs) s = Some ((pc1, cs1), s1)"
    and "holds_curM pc = (curM s = Some t)"
    and "loaded_ok (cur (prog s)) pc"
  shows "loaded_ok (cur (prog s1)) pc1
       \<and> (cur (prog s1) \<noteq> cur (prog s) \<longrightarrow> curM s = Some t)"
  using assms
  by (cases pc)
     (auto simp: thread_step_eval split: if_splits list.splits chan.splits call.splits)

text \<open>A step moves a delta from what its goroutine owes to the total, or leaves both.\<close>

lemma thread_step_owed:
  assumes "thread_step t b (pc, cs) s = Some ((pc1, cs1), s1)"
    and "loaded_ok (cur (prog s)) pc"
    and "crashed s = None" and "crashed s1 = None"
  shows "Files (cur (prog s1)) + Files (owed (pc1, cs1)) = Files (cur (prog s)) + Files (owed (pc, cs))
       \<and> Dirs (cur (prog s1)) + Dirs (owed (pc1, cs1)) = Dirs (cur (prog s)) + Dirs (owed (pc, cs))
       \<and> Bytes (cur (prog s1)) + Bytes (owed (pc1, cs1)) = Bytes (cur (prog s)) + Bytes (owed (pc, cs))
       \<and> Trees (cur (prog s1)) = Trees (cur (prog s))
       \<and> Blobs (cur (prog s1)) = Blobs (cur (prog s))"
  using assms
  by (cases pc)
     (auto simp: thread_step_eval owed_def Stat_zero_def
        split: if_splits list.splits chan.splits call.splits)

lemma sum_list_map_update:
  fixes f :: "'a \<Rightarrow> 'b::comm_monoid_add"
  shows "t < length xs \<Longrightarrow>
     sum_list (map f (xs[t := x])) + f (xs ! t) = sum_list (map f xs) + f x"
proof (induction xs arbitrary: t)
  case Nil
  then show ?case by simp
next
  case (Cons a xs)
  show ?case
  proof (cases t)
    case 0
    then show ?thesis by (simp add: add.commute add.left_commute)
  next
    case (Suc k)
    with Cons.prems have "k < length xs" by simp
    from Cons.IH [OF this] Suc show ?thesis by (simp add: add.assoc)
  qed
qed

lemma step_cases:
  assumes "step t b s = Some s'"
  obtains pc cs pc1 cs1 s1 where
    "t < length (threads s)" "crashed s = None" "threads s ! t = (pc, cs)"
    "thread_step t b (pc, cs) s = Some ((pc1, cs1), s1)"
    "threads s1 = threads s"
    "s' = s1\<lparr>threads := (threads s)[t := (pc1, cs1)]\<rparr>"
proof -
  from assms have c: "crashed s = None" and t: "t < length (threads s)"
    by (auto simp: step_def split: if_splits)
  obtain pc cs where th: "threads s ! t = (pc, cs)" by (cases "threads s ! t")
  from assms c t th obtain pc1 cs1 s1 where
    ts: "thread_step t b (pc, cs) s = Some ((pc1, cs1), s1)"
    and s': "s' = s1\<lparr>threads := (threads s1)[t := (pc1, cs1)]\<rparr>"
    by (auto simp: step_def split: option.splits)
  from thread_step_threads [OF ts] have "threads s1 = threads s" .
  with that c t th ts s' show thesis by simp
qed

lemma step_mutex_inv:
  assumes "mutex_inv s" and "step t b s = Some s'"
  shows "mutex_inv s'"
proof -
  from assms(2) obtain pc cs pc1 cs1 s1 where
    t: "t < length (threads s)" and th: "threads s ! t = (pc, cs)"
    and ts: "thread_step t b (pc, cs) s = Some ((pc1, cs1), s1)"
    and s': "s' = s1\<lparr>threads := (threads s)[t := (pc1, cs1)]\<rparr>"
    by (rule step_cases)
  from assms(1) t th have
    hc: "holds_curM pc = (curM s = Some t)" and hf: "holds_fnM pc = (fnM s = Some t)"
    and lo: "loaded_ok (cur (prog s)) pc"
    by (auto simp: mutex_inv_iff)
  note c = thread_step_curM [OF ts hc]
  note f = thread_step_fnM [OF ts hf]
  note l = thread_step_loaded [OF ts hc lo]
  show ?thesis unfolding mutex_inv_iff
  proof (intro allI impI)
    fix u assume "u < length (threads s')"
    then have u: "u < length (threads s)" by (simp add: s')
    show "holds_curM (fst (threads s' ! u)) = (curM s' = Some u)
        \<and> holds_fnM (fst (threads s' ! u)) = (fnM s' = Some u)
        \<and> loaded_ok (cur (prog s')) (fst (threads s' ! u))"
    proof (cases "u = t")
      case True
      with t c f l show ?thesis by (simp add: s')
    next
      case False
      from assms(1) u have
        uc: "holds_curM (fst (threads s ! u)) = (curM s = Some u)"
        and uf: "holds_fnM (fst (threads s ! u)) = (fnM s = Some u)"
        and ul: "loaded_ok (cur (prog s)) (fst (threads s ! u))"
        by (auto simp: mutex_inv_iff)
      have "loaded_ok (cur (prog s1)) (fst (threads s ! u))"
      proof (cases "cur (prog s1) = cur (prog s)")
        case True
        with ul show ?thesis by simp
      next
        case False
        with l have "curM s = Some t" by simp
        with uc \<open>u \<noteq> t\<close> have "\<not> holds_curM (fst (threads s ! u))" by simp
        then show ?thesis by (rule loaded_ok_free)
      qed
      with False uc uf c f show ?thesis by (simp add: s')
    qed
  qed
qed



lemma swap_sum:
  fixes c0 :: "'a::ab_group_add"
  assumes "S1 + fo = S0 + fn" and "c1 + fn = c0 + fo"
  shows "c1 + S1 = c0 + S0"
proof -
  from assms(1) have a: "S1 = S0 + fn - fo" by (simp add: eq_diff_eq)
  from assms(2) have b: "c1 = c0 + fo - fn" by (simp add: eq_diff_eq)
  show ?thesis by (simp add: a b)
qed

lemma step_total_owed:
  assumes "mutex_inv s" and "step t b s = Some s'" and "crashed s' = None"
  shows "total_owed s' = total_owed s"
proof -
  from assms(2) obtain pc cs pc1 cs1 s1 where
    t: "t < length (threads s)" and cr: "crashed s = None" and th: "threads s ! t = (pc, cs)"
    and ts: "thread_step t b (pc, cs) s = Some ((pc1, cs1), s1)"
    and s': "s' = s1\<lparr>threads := (threads s)[t := (pc1, cs1)]\<rparr>"
    by (rule step_cases)
  from assms(1) t th have lo: "loaded_ok (cur (prog s)) pc"
    by (auto simp: mutex_inv_iff)
  from assms(3) have cr1: "crashed s1 = None" by (simp add: s')
  note o = thread_step_owed [OF ts lo cr cr1]
  have upd: "sum_list (map f ((threads s)[t := (pc1, cs1)])) + f (pc, cs)
           = sum_list (map f (threads s)) + f (pc1, cs1)" for f :: "thread \<Rightarrow> uint64"
    using sum_list_map_update [OF t, of f "(pc1, cs1)"] th by simp
  have F: "Files (cur (prog s1)) + sum_list (map (\<lambda>th. Files (owed th)) ((threads s)[t := (pc1, cs1)]))
         = Files (cur (prog s)) + sum_list (map (\<lambda>th. Files (owed th)) (threads s))"
    by (rule swap_sum [OF upd [of "\<lambda>th. Files (owed th)"]]) (simp add: o)
  have D: "Dirs (cur (prog s1)) + sum_list (map (\<lambda>th. Dirs (owed th)) ((threads s)[t := (pc1, cs1)]))
         = Dirs (cur (prog s)) + sum_list (map (\<lambda>th. Dirs (owed th)) (threads s))"
    by (rule swap_sum [OF upd [of "\<lambda>th. Dirs (owed th)"]]) (simp add: o)
  have B: "Bytes (cur (prog s1)) + sum_list (map (\<lambda>th. Bytes (owed th)) ((threads s)[t := (pc1, cs1)]))
         = Bytes (cur (prog s)) + sum_list (map (\<lambda>th. Bytes (owed th)) (threads s))"
    by (rule swap_sum [OF upd [of "\<lambda>th. Bytes (owed th)"]]) (simp add: o)
  have T: "Trees (cur (prog s1)) = Trees (cur (prog s))" and L: "Blobs (cur (prog s1)) = Blobs (cur (prog s))"
    using o by simp_all
  have p: "prog s' = prog s1" and q: "threads s' = (threads s)[t := (pc1, cs1)]"
    by (simp_all add: s')
  show ?thesis by (simp only: total_owed_def p q F D B T L)
qed


text \<open>What every step keeps, every run keeps.\<close>

lemma run_invariant:
  assumes "run sched s = Some s'" and "I s"
    and "\<And>t b s s1. I s \<Longrightarrow> step t b s = Some s1 \<Longrightarrow> I s1"
  shows "I s'"
  using assms(1,2)
proof (induction sched arbitrary: s)
  case Nil
  then show ?case by simp
next
  case (Cons a sched)
  obtain t b where a: "a = (t, b)" by (cases a)
  from Cons.prems(1) a obtain s1 where
    st: "step t b s = Some s1" and r: "run sched s1 = Some s'"
    by (auto split: option.splits)
  from assms(3) [OF Cons.prems(2) st] have "I s1" .
  from Cons.IH [OF r this] show ?case .
qed

lemma run_mutex_inv: "run sched s = Some s' \<Longrightarrow> mutex_inv s \<Longrightarrow> mutex_inv s'"
  by (erule run_invariant) (auto intro: step_mutex_inv)


lemma step_length: "step t b s = Some s' \<Longrightarrow> length (threads s') = length (threads s)"
  by (erule step_cases) simp

lemma run_length: "run sched s = Some s' \<Longrightarrow> length (threads s') = length (threads s)"
  by (induction sched arbitrary: s) (auto split: option.splits dest: step_length)


lemma step_crashed: "step t b s = Some s' \<Longrightarrow> crashed s = None"
  by (erule step_cases)



lemma run_total_owed:
  "run sched s = Some s' \<Longrightarrow> mutex_inv s \<Longrightarrow> crashed s' = None \<Longrightarrow> total_owed s' = total_owed s"
proof (induction sched arbitrary: s)
  case Nil
  then show ?case by simp
next
  case (Cons a sched)
  obtain t b where a: "a = (t, b)" by (cases a)
  from Cons.prems(1) a obtain s1 where
    st: "step t b s = Some s1" and r: "run sched s1 = Some s'"
    by (auto split: option.splits)
  have c1: "crashed s1 = None"
  proof (cases sched)
    case Nil
    with r Cons.prems(3) show ?thesis by simp
  next
    case (Cons a' sched')
    obtain t' b' where "a' = (t', b')" by (cases a')
    with r Cons obtain s2 where "step t' b' s1 = Some s2"
      by (auto split: option.splits)
    then show ?thesis by (rule step_crashed)
  qed
  from step_mutex_inv [OF Cons.prems(2) st] have m1: "mutex_inv s1" .
  from Cons.IH [OF r m1 Cons.prems(3)] step_total_owed [OF Cons.prems(2) st c1]
  show ?case by simp
qed




lemma thread_step_no_Done:
  assumes "thread_step t b (pc, cs) s = Some ((pc1, cs1), s1)"
    and "no_Done (pc, cs)" and "running (prog s)" and "crashed s = None"
  shows "no_Done (pc1, cs1) \<and> running (prog s1) \<and> crashed s1 = None"
  using assms
  by (cases pc)
     (auto simp: thread_step_eval no_Done_def split: if_splits list.splits call.splits)


lemma step_quiet:
  assumes "quiet s" and "step t b s = Some s'"
  shows "quiet s'"
proof -
  from assms(2) obtain pc cs pc1 cs1 s1 where
    t: "t < length (threads s)" and th: "threads s ! t = (pc, cs)"
    and ts: "thread_step t b (pc, cs) s = Some ((pc1, cs1), s1)"
    and s': "s' = s1\<lparr>threads := (threads s)[t := (pc1, cs1)]\<rparr>"
    by (rule step_cases)
  from assms(1) have all: "\<forall>n < length (threads s). no_Done (threads s ! n)"
    by (simp add: quiet_def list_all_length)
  with t th have nd: "no_Done (pc, cs)" by auto
  from assms(1) have "running (prog s)" "crashed s = None" by (simp_all add: quiet_def)
  from thread_step_no_Done [OF ts nd this] have
    n1: "no_Done (pc1, cs1)" and r1: "running (prog s1)" and c1: "crashed s1 = None"
    by simp_all
  have "no_Done ((threads s)[t := (pc1, cs1)] ! n)" if "n < length (threads s)" for n
    using that all n1 by (cases "n = t") simp_all
  with r1 c1 show ?thesis by (simp add: quiet_def s' list_all_length)
qed

lemma run_quiet: "run sched s = Some s' \<Longrightarrow> quiet s \<Longrightarrow> quiet s'"
  by (erule run_invariant) (auto intro: step_quiet)

lemma thread_step_reporter:
  assumes "thread_step t b (pc, cs) s = Some ((pc1, cs1), s1)" and "owed_free (pc, cs)"
  shows "owed_free (pc1, cs1)"
  using assms
  by (cases pc) (auto simp: thread_step_eval owed_free_def split: if_splits list.splits)

lemma owed_free_owed: "owed_free th \<Longrightarrow> owed th = Stat_zero"
  by (cases th, rename_tac pc cs, case_tac pc) (auto simp: owed_free_def owed_def Stat_zero_def)



lemma step_reporter:
  assumes "k < length (threads s) \<and> owed_free (threads s ! k)" and "step t b s = Some s'"
  shows "k < length (threads s') \<and> owed_free (threads s' ! k)"
proof -
  from assms(2) obtain pc cs pc1 cs1 s1 where
    t: "t < length (threads s)" and th: "threads s ! t = (pc, cs)"
    and ts: "thread_step t b (pc, cs) s = Some ((pc1, cs1), s1)"
    and s': "s' = s1\<lparr>threads := (threads s)[t := (pc1, cs1)]\<rparr>"
    by (rule step_cases)
  show ?thesis
  proof (cases "k = t")
    case True
    with assms(1) th thread_step_reporter [OF ts] t show ?thesis by (simp add: s')
  next
    case False
    with assms(1) show ?thesis by (simp add: s')
  qed
qed

lemma run_reporter:
  assumes "run sched s = Some s'" and "k < length (threads s) \<and> owed_free (threads s ! k)"
  shows "k < length (threads s') \<and> owed_free (threads s' ! k)"
  using assms(1,2) by (rule run_invariant) (rule step_reporter)

lemma sum_list_map_zero:
  fixes f :: "'a \<Rightarrow> 'b::monoid_add"
  shows "(\<And>x. x \<in> set xs \<Longrightarrow> f x = 0) \<Longrightarrow> sum_list (map f xs) = 0"
  by (induction xs) simp_all

lemma mutex_inv_started: "mutex_inv (started p css)"
  by (auto simp: mutex_inv_iff started_def nth_append)

lemma owed_Idle:
  "owed (Idle, cs) =
     \<lparr>Files = sum_list (map (\<lambda>c. Files (call_delta c)) cs),
      Dirs = sum_list (map (\<lambda>c. Dirs (call_delta c)) cs),
      Bytes = sum_list (map (\<lambda>c. Bytes (call_delta c)) cs), Trees = 0, Blobs = 0\<rparr>"
  by (simp add: owed_def)

lemma total_owed_started:
  "total_owed (started p css) =
     \<lparr>Files = Files (cur p) + sum_list (map (\<lambda>cs. sum_list (map (\<lambda>c. Files (call_delta c)) cs)) css),
      Dirs = Dirs (cur p) + sum_list (map (\<lambda>cs. sum_list (map (\<lambda>c. Dirs (call_delta c)) cs)) css),
      Bytes = Bytes (cur p) + sum_list (map (\<lambda>cs. sum_list (map (\<lambda>c. Bytes (call_delta c)) cs)) css),
      Trees = Trees (cur p), Blobs = Blobs (cur p)\<rparr>"
  by (simp add: total_owed_def started_def owed_Idle comp_def owed_def)

lemma total_owed_finished:
  assumes "\<And>th. th \<in> set (threads s) \<Longrightarrow> owed th = Stat_zero"
  shows "total_owed s = cur (prog s)"
proof -
  have "sum_list (map (\<lambda>th. Files (owed th)) (threads s)) = 0"
    "sum_list (map (\<lambda>th. Dirs (owed th)) (threads s)) = 0"
    "sum_list (map (\<lambda>th. Bytes (owed th)) (threads s)) = 0"
    using assms by (auto intro!: sum_list_map_zero simp: Stat_zero_def)
  then show ?thesis by (simp add: total_owed_def)
qed

text \<open>
  Every call of every caller has returned: what is left to say about a run of callers
  that do not call \<^verbatim>\<open>Done\<close>.
\<close>

lemma callers_finished:
  assumes run: "run sched (started p css) = Some s'"
    and fin: "\<forall>t < length css. threads s' ! t = (Idle, [])"
    and ok: "crashed s' = None"
  shows "cur (prog s') = total_owed (started p css)"
proof -
  have len: "length (threads s') = Suc (length css)"
    using run_length [OF run] by (simp add: started_def)
  have "length css < length (threads (started p css)) \<and> owed_free (threads (started p css) ! length css)"
    by (simp add: started_def nth_append owed_free_def)
  from run_reporter [OF run this] have last: "owed_free (threads s' ! length css)" by simp
  have z: "owed th = Stat_zero" if "th \<in> set (threads s')" for th
  proof -
    from that obtain n where n: "n < length (threads s')" and th: "th = threads s' ! n"
      by (auto simp: in_set_conv_nth)
    show ?thesis
    proof (cases "n < length css")
      case True
      with fin th show ?thesis by (simp add: owed_Idle Stat_zero_def)
    next
      case False
      with n len have "n = length css" by simp
      with last th show ?thesis by (simp add: owed_free_owed)
    qed
  qed
  from run_total_owed [OF run mutex_inv_started ok] total_owed_finished [of s'] z
  show ?thesis by simp
qed


lemma quiet_started:
  "running p \<Longrightarrow> \<forall>cs \<in> set css. CallDone \<notin> set cs \<Longrightarrow> quiet (started p css)"
  by (auto simp: quiet_def started_def list_all_iff no_Done_def)





lemma run_append:
  "run (a @ b) s = (case run a s of None \<Rightarrow> None | Some s1 \<Rightarrow> run b s1)"
  by (induction a arbitrary: s) (auto split: option.splits)

lemma step_at:
  assumes "t < length (threads s)" and "crashed s = None" and "threads s ! t = th"
    and "thread_step t b th s = Some (th1, s1)"
  shows "step t b s = Some (s1\<lparr>threads := (threads s1)[t := th1]\<rparr>)"
  using assms by (simp add: step_def)

text \<open>
  A call of \<^verbatim>\<open>Report\<close> that runs from its first test to its return with no step of
  another goroutine in between does what \<open>Report\<close> of the first part says.
\<close>

lemma solo_Report:
  assumes t: "t < length (threads s)" and th: "threads s ! t = (R_check d, cs)"
    and free: "curM s = None" "fnM s = None" "crashed s = None"
    and rep: "Report (Some (prog s)) d = Inr (Some p1, evs)"
  shows "run (replicate (if OnUpdate (prog s) then 14 else 11) (t, b)) s =
           Some (s\<lparr>prog := p1, log := log s @ evs, threads := (threads s)[t := (Idle, cs)]\<rparr>)"
proof -
  from rep have r: "running (prog s)" by (auto simp: Report_def split: if_splits)
  show ?thesis
  proof (cases "OnUpdate (prog s)")
    case True
    with rep r have p1: "p1 = (prog s)\<lparr>cur := Add (cur (prog s)) d\<rparr>"
      and evs: "evs = [CallOnUpdate (Add (cur (prog s)) d) False]"
      by (auto simp: Report_def Let_def)
    show ?thesis using t th free r True
      by (simp add: eval_nat_numeral step_def p1 evs Add_def Let_def)
  next
    case False
    with rep r have p1: "p1 = (prog s)\<lparr>cur := Add (cur (prog s)) d\<rparr>"
      and evs: "evs = []"
      by (auto simp: Report_def Let_def)
    show ?thesis using t th free r False
      by (simp add: eval_nat_numeral step_def p1 evs Add_def Let_def)
  qed
qed


text \<open>
  Callers that do not call \<^verbatim>\<open>Done\<close> can all finish: one after the other, each call run
  alone.
\<close>

lemma solo_call:
  assumes t: "t < length (threads s)" and th: "threads s ! t = (Idle, c # cs)"
    and c: "c \<noteq> CallDone"
    and free: "curM s = None" "fnM s = None" "crashed s = None" and r: "running (prog s)"
  shows "\<exists>sched s'. run sched s = Some s' \<and> curM s' = None \<and> fnM s' = None
       \<and> crashed s' = None \<and> running (prog s')
       \<and> threads s' = (threads s)[t := (Idle, cs)]"
proof -
  let ?d = "call_delta c"
  let ?s1 = "s\<lparr>threads := (threads s)[t := (R_check ?d, cs)]\<rparr>"
  from c have "thread_step t False (Idle, c # cs) s = Some ((R_check ?d, cs), s)"
    by (cases c) simp_all
  from step_at [OF t free(3) th this] have st: "step t False s = Some ?s1" by simp
  have rep: "Report (Some (prog ?s1)) ?d =
      Inr (Some ((prog s)\<lparr>cur := Add (cur (prog s)) ?d\<rparr>),
           if OnUpdate (prog s) then [CallOnUpdate (Add (cur (prog s)) ?d) False] else [])"
    using r by (simp add: Report_running)
  have "run (replicate (if OnUpdate (prog ?s1) then 14 else 11) (t, False)) ?s1 =
      Some (?s1\<lparr>prog := (prog s)\<lparr>cur := Add (cur (prog s)) ?d\<rparr>,
                log := log ?s1 @ (if OnUpdate (prog s) then [CallOnUpdate (Add (cur (prog s)) ?d) False] else []),
                threads := (threads ?s1)[t := (Idle, cs)]\<rparr>)"
    using t free by (intro solo_Report [OF _ _ _ _ _ rep]) simp_all
  with st have "run ((t, False) # replicate (if OnUpdate (prog ?s1) then 14 else 11) (t, False)) s =
      Some (?s1\<lparr>prog := (prog s)\<lparr>cur := Add (cur (prog s)) ?d\<rparr>,
                log := log ?s1 @ (if OnUpdate (prog s) then [CallOnUpdate (Add (cur (prog s)) ?d) False] else []),
                threads := (threads ?s1)[t := (Idle, cs)]\<rparr>)"
    by simp
  then show ?thesis using free r by (intro exI conjI) (assumption, simp_all)
qed

lemma finish_thread:
  assumes "t < length (threads s)" and "threads s ! t = (Idle, cs)" and "CallDone \<notin> set cs"
    and "curM s = None" "fnM s = None" "crashed s = None" "running (prog s)"
  shows "\<exists>sched s'. run sched s = Some s' \<and> curM s' = None \<and> fnM s' = None
       \<and> crashed s' = None \<and> running (prog s')
       \<and> threads s' = (threads s)[t := (Idle, [])]"
  using assms
proof (induction cs arbitrary: s)
  case Nil
  have "run [] s = Some s" by simp
  moreover from Nil have "threads s = (threads s)[t := (Idle, [])]"
    by (metis list_update_id)
  ultimately show ?case using Nil.prems by blast
next
  case (Cons c cs)
  from Cons.prems have c: "c \<noteq> CallDone" by auto
  from solo_call [OF Cons.prems(1,2) c Cons.prems(4-7)] obtain sched1 s1 where
    r1: "run sched1 s = Some s1" and f1: "curM s1 = None" "fnM s1 = None" "crashed s1 = None"
    "running (prog s1)" and t1: "threads s1 = (threads s)[t := (Idle, cs)]"
    by blast
  from Cons.prems t1 have a: "t < length (threads s1)" and b: "threads s1 ! t = (Idle, cs)"
    and n: "CallDone \<notin> set cs"
    by simp_all
  from Cons.IH [OF a b n f1] obtain sched2 s2 where
    r2: "run sched2 s1 = Some s2" and f2: "curM s2 = None" "fnM s2 = None" "crashed s2 = None"
    "running (prog s2)" and t2: "threads s2 = (threads s1)[t := (Idle, [])]"
    by blast
  from r1 r2 have "run (sched1 @ sched2) s = Some s2" by (simp add: run_append)
  moreover from t1 t2 have "threads s2 = (threads s)[t := (Idle, [])]" by simp
  ultimately show ?case using f2 by blast
qed

lemma finish_all:
  assumes "n \<le> length (threads s)"
    and "\<forall>t < n. \<exists>cs. threads s ! t = (Idle, cs) \<and> CallDone \<notin> set cs"
    and "curM s = None" "fnM s = None" "crashed s = None" "running (prog s)"
  shows "\<exists>sched s'. run sched s = Some s' \<and> curM s' = None \<and> fnM s' = None
       \<and> crashed s' = None \<and> running (prog s')
       \<and> length (threads s') = length (threads s)
       \<and> (\<forall>t < n. threads s' ! t = (Idle, []))
       \<and> (\<forall>t \<ge> n. threads s' ! t = threads s ! t)"
  using assms
proof (induction n arbitrary: s)
  case 0
  have "run [] s = Some s" by simp
  with 0 show ?case by (intro exI [of _ "[]"] exI [of _ s]) simp
next
  case (Suc n)
  from Suc.prems have "n \<le> length (threads s)"
    "\<forall>t < n. \<exists>cs. threads s ! t = (Idle, cs) \<and> CallDone \<notin> set cs"
    by simp_all
  from Suc.IH [OF this Suc.prems(3-6)] obtain sched1 s1 where
    r1: "run sched1 s = Some s1" and f1: "curM s1 = None" "fnM s1 = None" "crashed s1 = None"
    "running (prog s1)" and l1: "length (threads s1) = length (threads s)"
    and d1: "\<forall>t < n. threads s1 ! t = (Idle, [])" and k1: "\<forall>t \<ge> n. threads s1 ! t = threads s ! t"
    by blast
  from Suc.prems(2) obtain cs where "threads s ! n = (Idle, cs)" and n: "CallDone \<notin> set cs"
    by auto
  with k1 have b: "threads s1 ! n = (Idle, cs)" by simp
  from Suc.prems(1) l1 have a: "n < length (threads s1)" by simp
  from finish_thread [OF a b n f1] obtain sched2 s2 where
    r2: "run sched2 s1 = Some s2" and f2: "curM s2 = None" "fnM s2 = None" "crashed s2 = None"
    "running (prog s2)" and t2: "threads s2 = (threads s1)[n := (Idle, [])]"
    by blast
  from r1 r2 have r: "run (sched1 @ sched2) s = Some s2" by (simp add: run_append)
  have "threads s2 ! t = (Idle, [])" if "t < Suc n" for t
    using that d1 a t2 by (cases "t = n") simp_all
  moreover have "threads s2 ! t = threads s ! t" if "t \<ge> Suc n" for t
    using that k1 t2 by simp
  moreover have "length (threads s2) = length (threads s)" using t2 l1 by simp
  ultimately show ?case using r f2 by blast
qed

lemma callers_can_finish:
  assumes "running p" and "\<forall>cs \<in> set css. CallDone \<notin> set cs"
  shows "\<exists>sched s'. run sched (started p css) = Some s'
       \<and> (\<forall>t < length css. threads s' ! t = (Idle, []))"
proof -
  let ?s = "started p css"
  have "length css \<le> length (threads ?s)" by (simp add: started_def)
  moreover have "\<forall>t < length css. \<exists>cs. threads ?s ! t = (Idle, cs) \<and> CallDone \<notin> set cs"
    using assms(2) by (auto simp: started_def nth_append)
  moreover have "curM ?s = None" "fnM ?s = None" "crashed ?s = None" "running (prog ?s)"
    using assms(1) by (simp_all add: started_def)
  ultimately obtain sched s' where "run sched ?s = Some s'"
    "\<forall>t < length css. threads s' ! t = (Idle, [])"
    using finish_all [of "length css" ?s] by blast
  then show ?thesis by blast
qed

text \<open>
  Claim C9. \<open>N\<close> goroutines each call \<^verbatim>\<open>Report(Stat{Bytes: 1})\<close> \<open>M\<close> times on a running
  instance, beside the background goroutine. There are runs in which all the calls
  return; and in every run, however the steps interleave, when all the calls have
  returned nothing has panicked and \<^verbatim>\<open>Current()\<close> is the total before with \<open>N * M\<close>
  added to Bytes (as a \<^verbatim>\<open>uint64\<close>; from a zero total, and \<open>N * M\<close> below \<open>2 ^ 64\<close>,
  Bytes is \<open>N * M\<close>).
\<close>

theorem concurrent_Report_Bytes:
  assumes "running p"
  shows "(\<exists>sched s'.
            run sched (started p (replicate N (replicate M (CallReport (Stat_zero\<lparr>Bytes := 1\<rparr>))))) = Some s'
          \<and> (\<forall>t < N. threads s' ! t = (Idle, [])))
       \<and> (run sched (started p (replicate N (replicate M (CallReport (Stat_zero\<lparr>Bytes := 1\<rparr>))))) = Some s'
          \<and> (\<forall>t < N. threads s' ! t = (Idle, [])) \<longrightarrow>
            crashed s' = None
          \<and> Current (Some (prog s')) = Inr ((cur p)\<lparr>Bytes := Bytes (cur p) + of_nat (N * M)\<rparr>)
          \<and> (cur p = Stat_zero \<and> N * M < 2 ^ 64 \<longrightarrow> unat (Bytes (cur (prog s'))) = N * M))"
proof (intro conjI impI)
  let ?css = "replicate N (replicate M (CallReport (Stat_zero\<lparr>Bytes := 1\<rparr>)))"
  have "\<forall>cs \<in> set ?css. CallDone \<notin> set cs" by auto
  from callers_can_finish [OF assms this]
  show "\<exists>sched s'. run sched (started p ?css) = Some s' \<and> (\<forall>t < N. threads s' ! t = (Idle, []))"
    by simp
  assume h: "run sched (started p ?css) = Some s' \<and> (\<forall>t < N. threads s' ! t = (Idle, []))"
  then have run: "run sched (started p ?css) = Some s'" by simp
  have "quiet (started p ?css)" using assms by (intro quiet_started) auto
  from run_quiet [OF run this] show ok: "crashed s' = None" by (simp add: quiet_def)
  have fin: "\<forall>t < length ?css. threads s' ! t = (Idle, [])" using h by simp
  have "cur (prog s') = total_owed (started p ?css)"
    using run fin ok by (rule callers_finished)
  also have "\<dots> = (cur p)\<lparr>Bytes := Bytes (cur p) + of_nat (N * M)\<rparr>"
    by (simp add: total_owed_started Stat_zero_def sum_list_replicate comp_def)
  finally have c: "cur (prog s') = (cur p)\<lparr>Bytes := Bytes (cur p) + of_nat (N * M)\<rparr>" .
  then show "Current (Some (prog s')) = Inr ((cur p)\<lparr>Bytes := Bytes (cur p) + of_nat (N * M)\<rparr>)"
    by (simp add: Current_def)
  assume z: "cur p = Stat_zero \<and> N * M < 2 ^ 64"
  then have "unat (of_nat (N * M) :: uint64) = N * M"
    by (intro of_nat_inverse [OF refl]) simp
  with z c show "unat (Bytes (cur (prog s'))) = N * M" by (simp add: Stat_zero_def)
qed

text \<open>
  A run of two callers with one call each and the background goroutine: the second
  caller reaches \<^verbatim>\<open>p.curM.Lock()\<close> while the first holds the mutex, and waits; the
  background goroutine ticks in between.
\<close>

lemma run_example:
  "run ([(0, False), (0, False), (0, False), (1, False), (1, False), (0, False), (0, False),
         (2, True), (0, False), (0, False), (0, False), (0, False), (0, False), (0, False),
         (0, False), (2, False), (2, False), (2, False), (2, False), (1, False), (1, False),
         (1, False), (1, False), (1, False), (1, False), (1, False), (1, False), (1, False),
         (1, False)])
     (started \<lparr>OnUpdate = False, OnDone = False, cur = Stat_zero, c_ticker = TickerRunning,
           cancel = ChanOpen, o_once = False, d_interval = 1, running = True\<rparr>
        (replicate 2 (replicate 1 (CallReport (Stat_zero\<lparr>Bytes := 1\<rparr>))))) =
   Some \<lparr>prog = \<lparr>OnUpdate = False, OnDone = False, cur = Stat_zero\<lparr>Bytes := 2\<rparr>,
           c_ticker = TickerRunning, cancel = ChanOpen, o_once = False, d_interval = 1,
           running = True\<rparr>,
         curM = None, fnM = None, log = [], crashed = None,
         threads = [(Idle, []), (Idle, []), (T_select, [])]\<rparr>"
  by (simp add: started_def step_def numeral_2_eq_2 Stat_zero_def)

text \<open>The theorem at that instance and that run.\<close>

theorem concurrent_Report_Bytes_witness:
  "running \<lparr>OnUpdate = False, OnDone = False, cur = Stat_zero, c_ticker = TickerRunning,
           cancel = ChanOpen, o_once = False, d_interval = 1, running = True\<rparr>
   \<and> run ([(0, False), (0, False), (0, False), (1, False), (1, False), (0, False), (0, False),
         (2, True), (0, False), (0, False), (0, False), (0, False), (0, False), (0, False),
         (0, False), (2, False), (2, False), (2, False), (2, False), (1, False), (1, False),
         (1, False), (1, False), (1, False), (1, False), (1, False), (1, False), (1, False),
         (1, False)])
     (started \<lparr>OnUpdate = False, OnDone = False, cur = Stat_zero, c_ticker = TickerRunning,
           cancel = ChanOpen, o_once = False, d_interval = 1, running = True\<rparr>
        (replicate 2 (replicate 1 (CallReport (Stat_zero\<lparr>Bytes := 1\<rparr>))))) =
   Some \<lparr>prog = \<lparr>OnUpdate = False, OnDone = False, cur = Stat_zero\<lparr>Bytes := 2\<rparr>,
           c_ticker = TickerRunning, cancel = ChanOpen, o_once = False, d_interval = 1,
           running = True\<rparr>,
         curM = None, fnM = None, log = [], crashed = None,
         threads = [(Idle, []), (Idle, []), (T_select, [])]\<rparr>
   \<and> Current (Some \<lparr>OnUpdate = False, OnDone = False, cur = Stat_zero\<lparr>Bytes := 2\<rparr>,
           c_ticker = TickerRunning, cancel = ChanOpen, o_once = False, d_interval = 1,
           running = True\<rparr>) = Inr (Stat_zero\<lparr>Bytes := 2\<rparr>)
   \<and> unat (Bytes (Stat_zero\<lparr>Bytes := 2\<rparr>)) = 2 * 1"
proof -
  have r: "running \<lparr>OnUpdate = False, OnDone = False, cur = Stat_zero, c_ticker = TickerRunning,
           cancel = ChanOpen, o_once = False, d_interval = 1, running = True\<rparr>"
    by simp
  have f: "\<forall>t<2. threads \<lparr>prog = \<lparr>OnUpdate = False, OnDone = False, cur = Stat_zero\<lparr>Bytes := 2\<rparr>,
           c_ticker = TickerRunning, cancel = ChanOpen, o_once = False, d_interval = 1,
           running = True\<rparr>,
         curM = None, fnM = None, log = [], crashed = None,
         threads = [(Idle, []), (Idle, []), (T_select, [])]\<rparr> ! t = (Idle, [])"
    by (auto simp: numeral_2_eq_2 less_Suc_eq)
  from concurrent_Report_Bytes [OF r, of 2 1, THEN conjunct2, THEN mp, OF conjI [OF run_example f]]
    run_example
  show ?thesis by (simp add: Stat_zero_def)
qed


section \<open>Concurrent calls: the end of a run\<close>



















lemma Done_inv_threads [simp]: "Done_inv th (s\<lparr>threads := x\<rparr>) = Done_inv th s"
  by (simp add: Done_inv_def)

lemma once_inv_threads [simp]: "once_inv (s\<lparr>threads := x\<rparr>) = once_inv s"
  by (simp add: once_inv_def)


















text \<open>
  When the others make no call, the \<^verbatim>\<open>Stat\<close> that \<^verbatim>\<open>Done\<close> reads is still the total when
  \<^verbatim>\<open>OnDone\<close> gets it, and stays the total.
\<close>

lemma snap_inv_threads [simp]: "snap_inv th (s\<lparr>threads := x\<rparr>) = snap_inv th s"
  by (simp add: snap_inv_def)





lemma owed_free_no_Done: "owed_free th \<Longrightarrow> no_Done th"
  by (cases th, rename_tac pc cs, case_tac pc) (auto simp: owed_free_def no_Done_def)
























end
